theory Spec2Isabelle
  imports Complex_Main "HOL-Library.Word" "HOL-Library.Log_Nat"
begin

unbundle bit_operations_syntax

section \<open>Scope of the model\<close>

text \<open>
  The model follows \<^verbatim>\<open>include/pgbar/pgbar.hpp\<close> as compiled under C++20 on a 64-bit
  target, for \<^verbatim>\<open>pgbar<StreamObj, singlethread>\<close>: the counter, the field formatters, the
  line assembler, the synchronous refresh driver and the bar controller.  A call of a
  member function is a function from the state before the call to the state after
  it; an exception is returned as a value together with the state in which the call
  was left.  The \<^verbatim>\<open>multithread\<close> driver, whose worker thread runs \<^verbatim>\<open>rendering()\<close>
  concurrently with the caller, is not modelled.  Strings have no length limit here:
  \<^verbatim>\<open>std::length_error\<close> and \<^verbatim>\<open>std::bad_alloc\<close> are not modelled.
\<close>

section \<open>Basic types\<close>

text \<open>
  \<^verbatim>\<open>__detail::SizeT\<close> is \<^verbatim>\<open>size_t\<close>: an unsigned 64-bit integer on the usual
  64-bit targets.  \<open>+\<close>, \<open>-\<close> and \<open>*\<close> wrap around, \<open><\<close> and \<open>\<le>\<close> compare the
  unsigned values, \<open>div\<close> is unsigned division.
\<close>

type_synonym SizeT = "64 word"

section \<open>The counter: \<^verbatim>\<open>__detail::counter_iterator\<close>\<close>

text \<open>
  The members \<^verbatim>\<open>num_tasks_\<close>, \<^verbatim>\<open>step_\<close> and \<^verbatim>\<open>current_\<close>; the trailing underscore of
  the source's member names is dropped throughout.
\<close>

record counter_iterator =
  num_tasks :: SizeT
  step :: SizeT
  current :: SizeT

text \<open>\<^verbatim>\<open>explicit counter_iterator( _tasks = 0, _each_step = 0 )\<close>: \<^verbatim>\<open>current_\<close> starts at 0.\<close>

definition mk_counter :: "SizeT \<Rightarrow> SizeT \<Rightarrow> counter_iterator" where
  "mk_counter tasks each_step = \<lparr>num_tasks = tasks, step = each_step, current = 0\<rparr>"

text \<open>
  \<^verbatim>\<open>return current_ >= num_tasks_ || num_tasks_ - current_ < step_;\<close>
  The \<^verbatim>\<open>||\<close> of C++ evaluates its right operand only when the left one is false,
  which the conditional writes out.
\<close>

definition is_ended :: "counter_iterator \<Rightarrow> bool" where
  "is_ended c =
     (if num_tasks c \<le> current c then True
      else num_tasks c - current c < step c)"

text \<open>\<^verbatim>\<open>end()\<close> is a copy whose \<^verbatim>\<open>current_\<close> is \<^verbatim>\<open>num_tasks_\<close>; \<^verbatim>\<open>operator*\<close> reads \<^verbatim>\<open>current_\<close>.\<close>

definition counter_end :: "counter_iterator \<Rightarrow> counter_iterator" where
  "counter_end c = c\<lparr>current := num_tasks c\<rparr>"

text \<open>\<^verbatim>\<open>operator++\<close>: \<^verbatim>\<open>current_ += step_\<close>, with no clamp.\<close>

definition incr :: "counter_iterator \<Rightarrow> counter_iterator" where
  "incr c = c\<lparr>current := current c + step c\<rparr>"

text \<open>
  \<^verbatim>\<open>operator+=\<close>:
  \<^verbatim>\<open>current_ = (current_ + _increment) > num_tasks_ ? num_tasks_ : (current_ + _increment);\<close>
\<close>

definition add_assign :: "counter_iterator \<Rightarrow> SizeT \<Rightarrow> counter_iterator" where
  "add_assign c increment =
     c\<lparr>current := (if num_tasks c < current c + increment then num_tasks c
                    else current c + increment)\<rparr>"

text \<open>\<^verbatim>\<open>operator=( const counter_iterator& )\<close> copies total and step and zeroes \<^verbatim>\<open>current_\<close>.\<close>

definition assign_counter :: "counter_iterator \<Rightarrow> counter_iterator \<Rightarrow> counter_iterator" where
  "assign_counter c lhs = c\<lparr>num_tasks := num_tasks lhs, step := step lhs, current := 0\<rparr>"

text \<open>\<^verbatim>\<open>operator=( value_type )\<close> sets \<^verbatim>\<open>current_\<close>.\<close>

definition assign_value :: "counter_iterator \<Rightarrow> SizeT \<Rightarrow> counter_iterator" where
  "assign_value c n = c\<lparr>current := n\<rparr>"

definition counter_set_step :: "counter_iterator \<Rightarrow> SizeT \<Rightarrow> counter_iterator" where
  "counter_set_step c s = c\<lparr>step := s\<rparr>"

definition counter_set_task :: "counter_iterator \<Rightarrow> SizeT \<Rightarrow> counter_iterator" where
  "counter_set_task c t = c\<lparr>num_tasks := t\<rparr>"

section \<open>Text helpers\<close>

text \<open>
  \<^verbatim>\<open>__detail::StrT\<close> is \<^verbatim>\<open>std::string\<close>, modelled as \<open>string\<close>; \<^verbatim>\<open>size()\<close> is the
  length as a \<open>SizeT\<close>.  An output stream is modelled by the sequence of strings
  inserted into it with \<^verbatim>\<open><<\<close>.
\<close>

definition str_size :: "string \<Rightarrow> SizeT" where
  "str_size s = of_nat (length s)"

definition blank :: char where
  "blank = CHR '' ''"

definition backspace :: char where
  "backspace = CHR 0x08"

definition ratio_len :: SizeT where
  "ratio_len = str_size ''100.00%''"

definition time_len :: SizeT where
  "time_len = str_size ''9.9m < 9.9m''"

definition rate_len :: SizeT where
  "rate_len = str_size ''999.99 kHz''"

definition division :: string where
  "division = '' | ''"

text \<open>The escape sequences of the build with colours (\<^verbatim>\<open>PGBAR_NOT_COL\<close> undefined).\<close>

definition font_fmt :: string where
  "font_fmt = CHR 0x1B # ''[1m''"

definition default_col :: string where
  "default_col = CHR 0x1B # ''[0m''"

definition dye_none :: string where
  "dye_none = []"

definition dye_cyan :: string where
  "dye_cyan = CHR 0x1B # ''[36m''"

datatype txt_layout = align_left | align_right | align_center

text \<open>
  \<^verbatim>\<open>formatter<_style>( _width, _str )\<close> as compiled under C++20, where it calls
  \<^verbatim>\<open>std::format\<close> with \<^verbatim>\<open>"{:>{}}"\<close>, \<^verbatim>\<open>"{:<{}}"\<close> or \<^verbatim>\<open>"{:^{}}"\<close>: the text is padded with
  blanks to the width, and a centred text gets the smaller half of the blanks
  before it.  (The branch for older standards puts the larger half before it.)
  The texts formatted here are ASCII, so a character takes one column.
\<close>

definition formatter :: "txt_layout \<Rightarrow> SizeT \<Rightarrow> string \<Rightarrow> string" where
  "formatter style width str =
     (if width = 0 then []
      else if width \<le> str_size str then str
      else (case style of
              align_right \<Rightarrow> replicate (unat (width - str_size str)) blank @ str
            | align_left \<Rightarrow> str @ replicate (unat (width - str_size str)) blank
            | align_center \<Rightarrow>
                (let n = width - str_size str; l_blank = n div 2
                 in replicate (unat l_blank) blank @ str @ replicate (unat (n - l_blank)) blank)))"

text \<open>\<^verbatim>\<open>bulk_copy( _time, _src )\<close>: \<^verbatim>\<open>_src\<close> appended \<^verbatim>\<open>_time\<close> times.\<close>

definition bulk_copy :: "SizeT \<Rightarrow> string \<Rightarrow> string" where
  "bulk_copy time src =
     (if time = 0 \<or> str_size src = 0 then []
      else concat (replicate (unat time) src))"

text \<open>\<^verbatim>\<open>std::to_string\<close> of an unsigned integer: its decimal digits.\<close>

fun to_string_nat :: "nat \<Rightarrow> string" where
  "to_string_nat n =
     (if n < 10 then [''0123456789'' ! n]
      else to_string_nat (n div 10) @ [''0123456789'' ! (n mod 10)])"

declare to_string_nat.simps [simp del]

definition to_string_int :: "int \<Rightarrow> string" where
  "to_string_int i = (if i < 0 then CHR ''-'' # to_string_nat (nat (- i)) else to_string_nat (nat i))"

text \<open>
  A \<^verbatim>\<open>double\<close> value is modelled by the real it denotes.  The arithmetic that decides
  which fields a frame has and how wide they are (the progress gate of
  \<^verbatim>\<open>rendering()\<close> and the digit count of \<^verbatim>\<open>init_length\<close>) is rounded as IEEE 754
  binary64 rounds it, see Section \<open>Binary64 arithmetic\<close>.  The arithmetic inside the
  field formatters below, which decides only the characters printed inside a field of
  fixed width, is exact.  \<^verbatim>\<open>std::to_string( double )\<close> prints with six
  decimals (\<^verbatim>\<open>"%f"\<close>).
\<close>

definition pad_digits :: "nat \<Rightarrow> nat \<Rightarrow> string" where
  "pad_digits k n = replicate (k - length (to_string_nat n)) (CHR ''0'') @ to_string_nat n"

definition to_string_double :: "real \<Rightarrow> string" where
  "to_string_double x =
     (let m = nat (round (\<bar>x\<bar> * 1000000))
      in (if x < 0 then ''-'' else []) @
         to_string_nat (m div 1000000) @ ''.'' @ pad_digits 6 (m mod 1000000))"

text \<open>\<^verbatim>\<open>str.find( '.' )\<close> and \<^verbatim>\<open>str.resize( n )\<close>.\<close>

definition find_dot :: "string \<Rightarrow> nat" where
  "find_dot s = length (takeWhile (\<lambda>c. c \<noteq> CHR ''.'') s)"

definition resize :: "nat \<Rightarrow> string \<Rightarrow> string" where
  "resize n s = take n s @ replicate (n - length s) (CHR 0x00)"

text \<open>The two \<^verbatim>\<open>splice\<close> lambdas: keep two decimals (rate), keep one decimal (countdown).\<close>

definition splice2 :: "real \<Rightarrow> string" where
  "splice2 val = (let str = to_string_double val in resize (find_dot str + 3) str)"

definition splice1 :: "real \<Rightarrow> string" where
  "splice1 val = (let str = to_string_double val in resize (find_dot str + 2) str)"

section \<open>Binary64 arithmetic\<close>

text \<open>
  \<^verbatim>\<open>double\<close> is IEEE 754 binary64: a finite value is \<open>m * 2 ^ k\<close> with an integer
  \<open>\<bar>m\<bar> < 2 ^ 53\<close> and \<open>- 1074 \<le> k\<close>.  A conversion from an integer, a quotient, a
  difference and a decimal literal are each the exact result rounded to the nearest
  such value, a tie going to the even \<open>m\<close>.

  \<open>rhe\<close> rounds a real to the nearest integer, ties to even.  \<open>ilog2 x\<close> is the
  exponent \<open>e\<close> with \<open>2 ^ e \<le> x < 2 ^ (e + 1)\<close> of a positive \<open>x\<close>, computed from the bit
  length of its integer part (of the integer part of \<open>1 / x\<close> below 1).  \<open>quantum x\<close> is
  the distance between neighbouring values of the format around a positive \<open>x\<close>:
  \<open>2 ^ (e - 52)\<close>, and \<open>2 ^ - 1074\<close> in the subnormal range below \<open>2 ^ - 1022\<close>.  \<open>rnd x\<close>
  is the multiple of the quantum nearest to \<open>x\<close>.  A result beyond the largest finite
  value, which the hardware turns into an infinity, does not arise from the operands
  used here: integers below \<open>2 ^ 64\<close>, their quotients, the differences of those and
  their logarithms.
\<close>

definition rhe :: "real \<Rightarrow> int" where
  "rhe x =
     (let f = \<lfloor>x\<rfloor>; r = x - of_int f
      in if r < 1 / 2 then f
         else if 1 / 2 < r then f + 1
         else if even f then f else f + 1)"

definition ilog2 :: "real \<Rightarrow> int" where
  "ilog2 x = (if 1 \<le> x then bitlen \<lfloor>x\<rfloor> - 1 else - bitlen (\<lceil>1 / x\<rceil> - 1))"

definition quantum :: "real \<Rightarrow> real" where
  "quantum x = 2 powi (max (ilog2 x) (- 1022) - 52)"

definition rnd :: "real \<Rightarrow> real" where
  "rnd x =
     (if x = 0 then 0
      else sgn x * of_int (rhe (\<bar>x\<bar> / quantum \<bar>x\<bar>)) * quantum \<bar>x\<bar>)"

text \<open>\<^verbatim>\<open>static_cast<double>\<close> of a \<^verbatim>\<open>SizeT\<close>, also where the conversion is implicit.\<close>

definition size_to_double :: "SizeT \<Rightarrow> real" where
  "size_to_double n = rnd (real (unat n))"

text \<open>
  \<^verbatim>\<open>std::log10\<close> on a \<^verbatim>\<open>double\<close>.  The C++ standard does not fix how the library
  rounds it; it is taken here as correctly rounded, which is what decides the value
  just below a power of ten: the logarithm of 999999999999999 is less than 15 by
  less than half the distance to the next value below 15, so the result is \<^verbatim>\<open>15.0\<close>.
\<close>

definition std_log10 :: "real \<Rightarrow> real" where
  "std_log10 x = rnd (log 10 x)"

section \<open>State\<close>

text \<open>
  A reading of \<^verbatim>\<open>std::chrono::system_clock::now()\<close>: nanoseconds since the epoch in a
  64-bit two's complement integer, as libstdc++ represents it.  Subtraction of two readings is the word
  subtraction; a duration converted to \<^verbatim>\<open>duration<SizeT, std::nano>\<close> keeps its bits.
\<close>

type_synonym time_point = "64 word"

text \<open>
  The state shared by every \<^verbatim>\<open>pgbar\<close> object of one instantiation of the class
  template: the function-local \<^verbatim>\<open>static\<close> variables of \<^verbatim>\<open>rendering()\<close>
  (\<^verbatim>\<open>done_flag\<close>, \<^verbatim>\<open>last_bar_progress_\<close>, \<^verbatim>\<open>invoke_interval\<close>, \<^verbatim>\<open>first_invoked\<close>) and of
  \<^verbatim>\<open>show_rate()\<close> (its own \<^verbatim>\<open>invoke_interval\<close>, here \<open>rate_interval\<close>).  A static local
  of a member function exists once, not once per object.  The system clock is kept
  here too: \<open>clock\<close> is the sequence of readings that \<^verbatim>\<open>now()\<close> returns and \<open>ticks\<close>
  counts the calls made so far.
\<close>

record globals =
  done_flag :: bool
  last_bar_progress :: real
  invoke_interval :: SizeT
  first_invoked :: time_point
  rate_interval :: SizeT
  clock :: "nat \<Rightarrow> time_point"
  ticks :: nat

definition now :: "globals \<Rightarrow> time_point \<times> globals" where
  "now g = (clock g (ticks g), g\<lparr>ticks := Suc (ticks g)\<rparr>)"

text \<open>Static storage is zero-initialised.\<close>

definition init_globals :: "(nat \<Rightarrow> time_point) \<Rightarrow> globals" where
  "init_globals clk =
     \<lparr>done_flag = False, last_bar_progress = 0, invoke_interval = 0, first_invoked = 0,
      rate_interval = 0, clock = clk, ticks = 0\<rparr>"

text \<open>
  A \<^verbatim>\<open>pgbar<StreamObj, singlethread>\<close> object.  \<open>active_flag\<close> and \<open>last_invoke\<close> are the
  members of its \<^verbatim>\<open>singlethread\<close> renderer \<^verbatim>\<open>rndrer_\<close>, whose task is
  \<^verbatim>\<open>this->rendering()\<close>.  \<open>stream\<close> holds what the object has inserted into \<^verbatim>\<open>stream_\<close>,
  oldest first.  \<open>option\<close> is the \<^verbatim>\<open>std::bitset<8>\<close>.  The \<^verbatim>\<open>multithread\<close> renderer runs
  \<^verbatim>\<open>rendering()\<close> on a second thread and is not part of this model.
\<close>

record pgbar =
  update_flag :: bool
  active_flag :: bool
  last_invoke :: time_point
  stream :: "string list"
  option :: "8 word"
  todo_col :: string
  done_col :: string
  status_col :: string
  todo_ch :: string
  done_ch :: string
  startpoint :: string
  endpoint :: string
  lstatus :: string
  rstatus :: string
  task_cnt :: counter_iterator
  bar_length :: SizeT
  cnt_length :: SizeT
  status_length :: SizeT
  in_tty :: bool

text \<open>\<^verbatim>\<open>enum bit_index { bar = 0, per, cnt, rate, timer }\<close>.\<close>

definition bit_bar :: nat where "bit_bar = 0"
definition bit_per :: nat where "bit_per = 1"
definition bit_cnt :: nat where "bit_cnt = 2"
definition bit_rate :: nat where "bit_rate = 3"
definition bit_timer :: nat where "bit_timer = 4"

text \<open>\<^verbatim>\<open>style::entire = ~0\<close> as a \<^verbatim>\<open>uint8_t\<close>.\<close>

definition style_entire :: "8 word" where
  "style_entire = NOT 0"

definition is_updated :: "pgbar \<Rightarrow> bool" where
  "is_updated b = update_flag b"

definition is_done :: "pgbar \<Rightarrow> bool" where
  "is_done b = (is_updated b \<and> is_ended (task_cnt b))"

section \<open>Field formatters\<close>

text \<open>\<^verbatim>\<open>const SizeT done_len = std::round( bar_length_ * num_per );\<close>\<close>

definition show_bar :: "pgbar \<Rightarrow> real \<Rightarrow> string" where
  "show_bar b num_per =
     (let done_len = (of_int (round (real (unat (bar_length b)) * num_per)) :: SizeT)
      in startpoint b @
         done_col b @ bulk_copy done_len (done_ch b) @
         todo_col b @ bulk_copy (bar_length b - done_len) (todo_ch b) @
         default_col @ endpoint b @
         [blank])"

definition show_percentage :: "pgbar \<Rightarrow> real \<Rightarrow> string" where
  "show_percentage b num_per =
     (if \<not> is_updated b then formatter align_left ratio_len ''0.00%''
      else formatter align_right ratio_len (splice2 (num_per * 100) @ ''%''))"

definition show_task_counter :: "pgbar \<Rightarrow> SizeT \<Rightarrow> string" where
  "show_task_counter b num_done =
     (let total_str = to_string_nat (unat (current (counter_end (task_cnt b))));
          size = str_size total_str
      in formatter align_right size (to_string_nat (unat num_done)) @ ''/'' @ total_str)"

text \<open>
  \<^verbatim>\<open>show_rate( interval )\<close> keeps the running average in its static local and
  returns the text with the updated globals.  \<open>frequency\<close> is a \<open>SizeT\<close>:
  \<^verbatim>\<open>nanoseconds( 1 s ) / invoke_interval\<close> is an unsigned division, taken only when
  the average is not zero; otherwise the value is \<^verbatim>\<open>~static_cast<SizeT>(0)\<close>.  The
  comparisons against \<^verbatim>\<open>1e3\<close>, \<^verbatim>\<open>1e6\<close>, \<^verbatim>\<open>1e9\<close> and \<^verbatim>\<open>999.99\<close> are made on the real
  value of \<open>frequency\<close>.
\<close>

definition rate_frequency :: "SizeT \<Rightarrow> SizeT" where
  "rate_frequency avg = (if avg \<noteq> 0 then 1000000000 div avg else NOT 0)"

definition rate_text :: "SizeT \<Rightarrow> string" where
  "rate_text frequency =
     (let f = real (unat frequency)
      in if f < 1000 then splice2 f @ '' Hz''
         else if f < 1000000 then splice2 (f / 1000) @ '' kHz''
         else if f < 1000000000 then splice2 (f / 1000000) @ '' MHz''
         else (let temp = f / 1000000000
               in if temp > 999.99 then ''> 1.00 GHz''
                  else splice2 temp @ '' GHz''))"

definition show_rate :: "pgbar \<Rightarrow> globals \<Rightarrow> SizeT \<Rightarrow> string \<times> globals" where
  "show_rate b g interval =
     (if \<not> is_updated b
      then (formatter align_center rate_len ''0.00 Hz'', g\<lparr>rate_interval := 0\<rparr>)
      else (let avg = (rate_interval g + interval) div 2;
                frequency = rate_frequency avg
            in (formatter align_center rate_len (rate_text frequency),
                g\<lparr>rate_interval := avg\<rparr>)))"

text \<open>
  The \<^verbatim>\<open>to_time\<close> lambda of \<^verbatim>\<open>show_countdown\<close>, on a signed number of seconds.
  C++ integer division truncates; the operands are not negative where it is used.
\<close>

definition to_time :: "int \<Rightarrow> string" where
  "to_time sec =
     (if sec < 60 then to_string_int sec @ ''s''
      else if sec < 60 * 9 then splice1 (real_of_int sec / 60) @ ''m''
      else if sec < 60 * 60 then to_string_int (sec div 60) @ ''m''
      else if sec < 60 * 60 * 9 then splice1 (real_of_int sec / (60 * 60)) @ ''h''
      else if sec > 60 * 60 * 99 then ''99h''
      else to_string_int (sec div (60 * 60)) @ ''h'')"

text \<open>
  \<^verbatim>\<open>duration_cast<seconds>( interval * n ).count()\<close>: the product wraps in \<open>SizeT\<close>, the
  cast divides by \<^verbatim>\<open>10^9\<close> and the count is read as a signed 64-bit value.
\<close>

definition to_seconds :: "SizeT \<Rightarrow> int" where
  "to_seconds d = sint (d div 1000000000)"

definition show_countdown :: "pgbar \<Rightarrow> SizeT \<Rightarrow> SizeT \<Rightarrow> string" where
  "show_countdown b interval num_done =
     (if \<not> is_updated b then formatter align_center time_len ''0s < 99h''
      else formatter align_center time_len
             (to_time (to_seconds (interval * num_done)) @
              '' < '' @
              to_time (to_seconds (interval * (current (counter_end (task_cnt b)) - num_done)))))"

section \<open>Line assembler\<close>

text \<open>
  The local \<^verbatim>\<open>total_length\<close> of \<^verbatim>\<open>generate_barcode\<close>: the width of the bar segment
  when the controller passed to this call enables the bar, plus \<^verbatim>\<open>status_length_\<close>.
\<close>

definition total_length :: "pgbar \<Rightarrow> 8 word \<Rightarrow> SizeT" where
  "total_length b ctrller =
     (if bit ctrller bit_bar
      then bar_length b + str_size (startpoint b) + str_size (endpoint b) + 1 else 0) +
     (if status_length b \<noteq> 0 then status_length b else 0)"

text \<open>
  \<^verbatim>\<open>generate_barcode( ctrller, num_per, num_done, interval )\<close> returns the pair
  (erase prefix, line).  The countdown is given \<^verbatim>\<open>*task_cnt_\<close>, not \<^verbatim>\<open>num_done\<close>.
\<close>

definition generate_barcode ::
  "pgbar \<Rightarrow> globals \<Rightarrow> 8 word \<Rightarrow> real \<Rightarrow> SizeT \<Rightarrow> SizeT \<Rightarrow> (string \<times> string) \<times> globals" where
  "generate_barcode b g ctrller num_per num_done interval =
     (let seg_bar = (if bit ctrller bit_bar then show_bar b num_per else []);
          seg_left = (if status_length b \<noteq> 0 then font_fmt @ status_col b @ lstatus b else []);
          seg_per =
            (if bit ctrller bit_per
             then (if bit ctrller bit_cnt \<or> bit ctrller bit_rate \<or> bit ctrller bit_timer
                   then show_percentage b num_per @ division
                   else show_percentage b num_per)
             else []);
          seg_cnt =
            (if bit ctrller bit_cnt
             then (if bit ctrller bit_rate \<or> bit ctrller bit_timer
                   then show_task_counter b num_done @ division
                   else show_task_counter b num_done)
             else []);
          seg_rate =
            (if bit ctrller bit_rate
             then (case show_rate b g interval of
                     (r, g') \<Rightarrow> (if bit ctrller bit_timer then r @ division else r, g'))
             else ([], g));
          seg_timer =
            (if bit ctrller bit_timer
             then show_countdown b interval (current (task_cnt b)) else []);
          seg_right = (if status_length b \<noteq> 0 then rstatus b @ default_col else [])
      in ((if is_updated b then replicate (unat (total_length b ctrller)) backspace else [],
           seg_bar @ seg_left @ seg_per @ seg_cnt @ fst seg_rate @ seg_timer @ seg_right),
          snd seg_rate))"

text \<open>\<^verbatim>\<open>stream_ << info.first << info.second\<close>\<close>

definition emit :: "pgbar \<Rightarrow> string \<times> string \<Rightarrow> pgbar" where
  "emit b info = b\<lparr>stream := stream b @ [fst info, snd info]\<rparr>"

text \<open>
  \<^verbatim>\<open>rendering()\<close>.  It has three parts, run in this order in one call: the first
  frame of a run (when \<^verbatim>\<open>update_flag_\<close> is still false), the frame of the current
  progress, and the final frame with its line break.
\<close>

definition render_first :: "globals \<times> pgbar \<Rightarrow> globals \<times> pgbar" where
  "render_first gb =
     (case gb of (g, b) \<Rightarrow>
        if \<not> is_updated b then
          (let g1 = g\<lparr>done_flag := False, last_bar_progress := 0\<rparr>;
               gb2 =
                 (if in_tty b then
                    (case now (g1\<lparr>invoke_interval := 0\<rparr>) of
                       (t, g2) \<Rightarrow>
                         (case generate_barcode b (g2\<lparr>first_invoked := t\<rparr>) (option b) 0 0 0 of
                            (info, g3) \<Rightarrow> (g3, emit b info)))
                  else (g1, b))
           in (fst gb2, (snd gb2)\<lparr>update_flag := True\<rparr>))
        else (g, b))"

text \<open>
  The locals \<^verbatim>\<open>num_percent\<close> and \<^verbatim>\<open>controller\<close> of the second part:
  \<^verbatim>\<open>double num_percent = *task_cnt_ / static_cast<double>( *task_cnt_.end() );\<close> and
  \<^verbatim>\<open>if ( num_percent - last_bar_progress_ < 0.01 ) controller.reset( bit_index::bar );\<close>
  The division converts both operands to \<^verbatim>\<open>double\<close>; the quotient, the difference and
  the literal \<^verbatim>\<open>0.01\<close> are binary64 values, so that for instance 3 of 100 after 2 of
  100 is a progress of less than \<^verbatim>\<open>0.01\<close>.  \<open>bar_gate\<close> is the condition of that
  \<^verbatim>\<open>if\<close>: the bar bit is cleared in the controller of this frame when it holds, and
  \<^verbatim>\<open>last_bar_progress_\<close> is set to \<^verbatim>\<open>num_percent\<close> when it does not.  For a total of zero the source divides by
  zero, which gives an infinity or a NaN; the quotient of the model is 0 there, and
  what is stated below about the frames of a bar is stated for a total that is not
  zero (\<^verbatim>\<open>do_update\<close> refuses a total of zero before anything is rendered).
\<close>

definition num_percent :: "pgbar \<Rightarrow> real" where
  "num_percent b =
     rnd (size_to_double (current (task_cnt b)) /
          size_to_double (current (counter_end (task_cnt b))))"

definition bar_gate :: "pgbar \<Rightarrow> real \<Rightarrow> bool" where
  "bar_gate b last_progress = (rnd (num_percent b - last_progress) < rnd (1 / 100))"

definition controller :: "pgbar \<Rightarrow> real \<Rightarrow> 8 word" where
  "controller b last_progress =
     (if bar_gate b last_progress then unset_bit bit_bar (option b) else option b)"

definition render_progress :: "globals \<times> pgbar \<Rightarrow> globals \<times> pgbar" where
  "render_progress gb =
     (case gb of (g, b) \<Rightarrow>
        if in_tty b then
          (case now g of
             (t, g1) \<Rightarrow>
               (let interval =
                      (if current (task_cnt b) \<noteq> 0
                       then (t - first_invoked g1) div current (task_cnt b)
                       else (t - first_invoked g1) div 1);
                    g2 = g1\<lparr>invoke_interval := interval\<rparr>;
                    g3 = (if bar_gate b (last_bar_progress g2) then g2
                          else g2\<lparr>last_bar_progress := num_percent b\<rparr>)
                in (case generate_barcode b g3 (controller b (last_bar_progress g2))
                           (num_percent b) (current (task_cnt b)) (invoke_interval g3) of
                      (info, g4) \<Rightarrow> (g4, emit b info))))
        else (g, b))"

definition render_final :: "globals \<times> pgbar \<Rightarrow> globals \<times> pgbar" where
  "render_final gb =
     (case gb of (g, b) \<Rightarrow>
        if is_done b then
          (let gb1 =
                 (if in_tty b then
                    (case generate_barcode b g (option b) 1
                            (current (counter_end (task_cnt b))) (invoke_interval g) of
                       (info, g1) \<Rightarrow> (g1, emit b (fst info, snd info @ [CHR 0x0A])))
                  else (g, b))
           in ((fst gb1)\<lparr>done_flag := True\<rparr>, snd gb1))
        else (g, b))"

definition rendering :: "globals \<times> pgbar \<Rightarrow> globals \<times> pgbar" where
  "rendering gb =
     (let gb1 = render_first gb
      in if done_flag (fst gb1) then gb1
         else render_final (render_progress gb1))"

section \<open>Refresh driver: \<^verbatim>\<open>singlethread\<close>\<close>

text \<open>
  \<^verbatim>\<open>__detail::reflash_rate = std::chrono::microseconds( 35 )\<close>.  The comparison
  \<^verbatim>\<open>current_time - last_invoke_ < reflash_rate\<close> is made in nanoseconds on signed
  64-bit counts.
\<close>

definition reflash_rate_microseconds :: int where
  "reflash_rate_microseconds = 35"

definition reflash_rate :: int where
  "reflash_rate = reflash_rate_microseconds * 1000"

definition active :: "globals \<times> pgbar \<Rightarrow> globals \<times> pgbar" where
  "active gb =
     (case gb of (g, b) \<Rightarrow>
        if active_flag b then (g, b)
        else (case now g of
                (t, g1) \<Rightarrow>
                  (case rendering (g1, b\<lparr>last_invoke := t\<rparr>) of
                     (g2, b2) \<Rightarrow> (g2, b2\<lparr>active_flag := True\<rparr>))))"

definition suspend :: "globals \<times> pgbar \<Rightarrow> globals \<times> pgbar" where
  "suspend gb =
     (case gb of (g, b) \<Rightarrow>
        if \<not> active_flag b then (g, b)
        else (case rendering (g, b) of
                (g1, b1) \<Rightarrow> (g1, b1\<lparr>active_flag := False\<rparr>)))"

definition render :: "globals \<times> pgbar \<Rightarrow> globals \<times> pgbar" where
  "render gb =
     (case gb of (g, b) \<Rightarrow>
        if \<not> active_flag b then (g, b)
        else (case now g of
                (current_time, g1) \<Rightarrow>
                  if sint (current_time - last_invoke b) < reflash_rate then (g1, b)
                  else rendering (g1, b\<lparr>last_invoke := current_time\<rparr>)))"

section \<open>Bar controller\<close>

text \<open>
  The three messages with which \<^verbatim>\<open>bad_pgbar\<close> is thrown:
  \<^verbatim>\<open>"bad_pgbar: updating a full progress bar"\<close> (the specification's InvalidState),
  \<^verbatim>\<open>"bad_pgbar: the number of tasks is zero"\<close> and \<^verbatim>\<open>"bad_pgbar: zero step_"\<close>
  (its InvalidConfig).
\<close>

datatype bad_pgbar = updating_full_bar | zero_tasks | zero_step

text \<open>
  \<^verbatim>\<open>do_update( invokable )\<close>.  The result carries the exception, if one was thrown,
  and the state in which the call leaves the globals and the object.
\<close>

definition do_update ::
  "(counter_iterator \<Rightarrow> counter_iterator) \<Rightarrow> globals \<times> pgbar \<Rightarrow> bad_pgbar option \<times> globals \<times> pgbar" where
  "do_update invokable gb =
     (case gb of (g, b) \<Rightarrow>
        if is_done b then (Some updating_full_bar, g, b)
        else if current (counter_end (task_cnt b)) = 0 then (Some zero_tasks, g, b)
        else (case (if \<not> is_updated b then active (g, b) else (g, b)) of
                (g1, b1) \<Rightarrow>
                  (case render (g1, b1\<lparr>task_cnt := invokable (task_cnt b1)\<rparr>) of
                     (g2, b2) \<Rightarrow>
                       (if is_ended (task_cnt b2)
                        then (case suspend (g2, b2) of (g3, b3) \<Rightarrow> (None, g3, b3))
                        else (None, g2, b2)))))"

definition update :: "globals \<times> pgbar \<Rightarrow> bad_pgbar option \<times> globals \<times> pgbar" where
  "update gb = do_update incr gb"

definition update_by :: "SizeT \<Rightarrow> globals \<times> pgbar \<Rightarrow> bad_pgbar option \<times> globals \<times> pgbar" where
  "update_by next_step gb = do_update (\<lambda>c. add_assign c next_step) gb"

definition reset :: "globals \<times> pgbar \<Rightarrow> globals \<times> pgbar" where
  "reset gb =
     (case gb of (g, b) \<Rightarrow>
        if \<not> is_updated b then (g, b)
        else (case suspend (g, b\<lparr>task_cnt := assign_value (task_cnt b) 0\<rparr>) of
                (g1, b1) \<Rightarrow> (g1, b1\<lparr>update_flag := False\<rparr>)))"

section \<open>Construction and configuration\<close>

text \<open>
  \<^verbatim>\<open>init_length( _self, update_cnt_len )\<close>.  \<open>log10_digits\<close> is its subexpression
  \<^verbatim>\<open>static_cast<SizeT>( std::log10( *_self.task_cnt_.end() ) + 1 )\<close>: the total is
  converted to \<^verbatim>\<open>double\<close>, the sum is a \<^verbatim>\<open>double\<close>, and the cast drops the fraction.  It
  is the number of decimal digits of a total below \<open>10 ^ 14\<close> (\<open>log10_digits_code\<close>
  below), and one more than that for a total that the logarithm rounds up to the
  next integer, such as 999999999999999.  For a total of zero the source converts
  minus infinity to \<^verbatim>\<open>SizeT\<close>, which C++ leaves undefined, and the model takes zero
  digits.
\<close>

definition log10_digits :: "SizeT \<Rightarrow> SizeT" where
  "log10_digits n =
     (if n = 0 then 0 else of_int \<lfloor>rnd (std_log10 (size_to_double n) + 1)\<rfloor>)"

definition status_num :: "8 word \<Rightarrow> SizeT" where
  "status_num opt =
     of_bool (bit opt bit_per) + of_bool (bit opt bit_cnt) +
     of_bool (bit opt bit_rate) + of_bool (bit opt bit_timer)"

definition init_length :: "pgbar \<Rightarrow> bool \<Rightarrow> pgbar" where
  "init_length self update_cnt_len =
     (let s1 = (if update_cnt_len
                then self\<lparr>cnt_length :=
                       log10_digits (current (counter_end (task_cnt self))) * 2 + 1\<rparr>
                else self);
          len = (if bit (option s1) bit_per then ratio_len else 0) +
                (if bit (option s1) bit_cnt then cnt_length s1 else 0) +
                (if bit (option s1) bit_rate then rate_len else 0) +
                (if bit (option s1) bit_timer then time_len else 0)
      in if len \<noteq> 0
         then s1\<lparr>status_length :=
                  len + (str_size (lstatus s1) + str_size (rstatus s1)) +
                  (if 1 < status_num (option s1)
                   then (status_num (option s1) - 1) * str_size division else 0)\<rparr>
         else s1\<lparr>status_length := len\<rparr>)"

text \<open>
  The private constructor \<^verbatim>\<open>pgbar( StreamObj* )\<close>.  \<open>tty\<close> is the result of
  \<^verbatim>\<open>check_output_stream\<close>, which asks the platform whether the sink is a terminal.
\<close>

definition pgbar_base :: "bool \<Rightarrow> pgbar" where
  "pgbar_base tty =
     \<lparr>update_flag = False, active_flag = False, last_invoke = 0, stream = [],
      option = style_entire, todo_col = [], done_col = [], status_col = [],
      todo_ch = [], done_ch = [], startpoint = [], endpoint = [],
      lstatus = [], rstatus = [], task_cnt = mk_counter 0 0,
      bar_length = 30, cnt_length = 1, status_length = 0, in_tty = tty\<rparr>"

text \<open>\<^verbatim>\<open>pgbar( _total_tsk, _each_step, _ostream )\<close>\<close>

definition pgbar_new :: "SizeT \<Rightarrow> SizeT \<Rightarrow> bool \<Rightarrow> pgbar" where
  "pgbar_new total_tsk each_step tty =
     init_length
       ((pgbar_base tty)
          \<lparr>todo_col := dye_none, done_col := dye_none, status_col := dye_cyan,
           todo_ch := [blank], done_ch := ''-'',
           startpoint := ''['', endpoint := '']'',
           lstatus := ''[ '', rstatus := '' ]'',
           task_cnt := assign_counter (task_cnt (pgbar_base tty)) (mk_counter total_tsk each_step)\<rparr>)
       True"

text \<open>The aggregate \<^verbatim>\<open>style\<close> of the C++20 build: every member is optional.\<close>

record style =
  total_tasks :: "SizeT option"
  each_setp :: "SizeT option"
  st_option :: "8 word option"
  st_todo_char :: "string option"
  st_done_char :: "string option"
  st_todo_color :: "string option"
  st_done_color :: "string option"
  st_startpoint :: "string option"
  st_endpoint :: "string option"
  left_status :: "string option"
  right_status :: "string option"
  st_status_color :: "string option"
  st_bar_length :: "SizeT option"

definition value_or :: "'a option \<Rightarrow> 'a \<Rightarrow> 'a" where
  "value_or x d = (case x of Some v \<Rightarrow> v | None \<Rightarrow> d)"

definition apply_style :: "pgbar \<Rightarrow> style \<Rightarrow> pgbar" where
  "apply_style b sel =
     (let b1 = b\<lparr>option := value_or (st_option sel) (option b),
                 todo_col := value_or (st_todo_color sel) (todo_col b),
                 done_col := value_or (st_done_color sel) (done_col b),
                 status_col := value_or (st_status_color sel) (status_col b),
                 todo_ch := value_or (st_todo_char sel) (todo_ch b),
                 done_ch := value_or (st_done_char sel) (done_ch b),
                 startpoint := value_or (st_startpoint sel) (startpoint b),
                 endpoint := value_or (st_endpoint sel) (endpoint b),
                 lstatus := value_or (left_status sel) (lstatus b),
                 rstatus := value_or (right_status sel) (rstatus b)\<rparr>;
          b2 = (case total_tasks sel of
                  Some t \<Rightarrow> b1\<lparr>task_cnt := counter_set_task (task_cnt b1) t\<rparr> | None \<Rightarrow> b1);
          b3 = (case each_setp sel of
                  Some s \<Rightarrow> b2\<lparr>task_cnt := counter_set_step (task_cnt b2) s\<rparr> | None \<Rightarrow> b2)
      in init_length (b3\<lparr>bar_length := value_or (st_bar_length sel) (bar_length b3)\<rparr>) True)"

text \<open>\<^verbatim>\<open>pgbar( style _initializer, _ostream )\<close>: the defaults, then the members given.\<close>

definition pgbar_of_style :: "style \<Rightarrow> bool \<Rightarrow> pgbar" where
  "pgbar_of_style initializer tty =
     apply_style
       ((pgbar_base tty)
          \<lparr>todo_col := dye_none, done_col := dye_none, status_col := dye_cyan,
           todo_ch := [blank], done_ch := ''-'',
           startpoint := ''['', endpoint := '']'',
           lstatus := ''[ '', rstatus := '' ]''\<rparr>)
       initializer"

text \<open>\<^verbatim>\<open>npod_copy\<close> and \<^verbatim>\<open>pod_copy\<close>, and the copy constructor built from them.\<close>

definition npod_copy :: "pgbar \<Rightarrow> pgbar \<Rightarrow> pgbar" where
  "npod_copy to from =
     to\<lparr>option := option from, todo_col := todo_col from, done_col := done_col from,
        status_col := status_col from, todo_ch := todo_ch from, done_ch := done_ch from,
        startpoint := startpoint from, endpoint := endpoint from,
        lstatus := lstatus from, rstatus := rstatus from\<rparr>"

definition pod_copy :: "pgbar \<Rightarrow> pgbar \<Rightarrow> pgbar" where
  "pod_copy to from =
     to\<lparr>task_cnt := assign_counter (task_cnt to) (task_cnt from),
        bar_length := bar_length from, cnt_length := cnt_length from,
        status_length := status_length from\<rparr>"

definition pgbar_copy :: "pgbar \<Rightarrow> bool \<Rightarrow> pgbar" where
  "pgbar_copy lhs tty = pod_copy (npod_copy (pgbar_base tty) lhs) lhs"

text \<open>
  \<^verbatim>\<open>operator=( const pgbar& )\<close> for two distinct objects (a self-assignment returns
  at once), and what \<^verbatim>\<open>operator=( pgbar&& )\<close> does to its target.  The object moved
  from is left with strings in the unspecified state of a moved-from \<^verbatim>\<open>std::string\<close>
  and is not followed further.
\<close>

definition copy_assign :: "pgbar \<Rightarrow> pgbar \<Rightarrow> pgbar" where
  "copy_assign self lhs = (if is_updated self then self else pod_copy (npod_copy self lhs) lhs)"

definition move_assign :: "pgbar \<Rightarrow> pgbar \<Rightarrow> pgbar" where
  "move_assign self rhs = pod_copy (npod_copy self rhs) rhs"

text \<open>The setters.  \<^verbatim>\<open>set_step\<close> and \<^verbatim>\<open>set_task\<close> can throw.\<close>

definition set_step :: "SizeT \<Rightarrow> pgbar \<Rightarrow> bad_pgbar option \<times> pgbar" where
  "set_step s b =
     (if is_updated b then (None, b)
      else if s = 0 then (Some zero_step, b)
      else (None, b\<lparr>task_cnt := counter_set_step (task_cnt b) s\<rparr>))"

definition set_task :: "SizeT \<Rightarrow> pgbar \<Rightarrow> bad_pgbar option \<times> pgbar" where
  "set_task total_tsk b =
     (if is_updated b then (None, b)
      else if total_tsk = 0 then (Some zero_tasks, b)
      else (None, init_length (b\<lparr>task_cnt := counter_set_task (task_cnt b) total_tsk\<rparr>) True))"

definition set_done :: "string \<Rightarrow> pgbar \<Rightarrow> pgbar" where
  "set_done ch b = (if \<not> is_updated b then b\<lparr>done_ch := ch\<rparr> else b)"

definition set_todo :: "string \<Rightarrow> pgbar \<Rightarrow> pgbar" where
  "set_todo ch b = (if \<not> is_updated b then b\<lparr>todo_ch := ch\<rparr> else b)"

definition set_startpoint :: "string \<Rightarrow> pgbar \<Rightarrow> pgbar" where
  "set_startpoint p b = (if \<not> is_updated b then b\<lparr>startpoint := p\<rparr> else b)"

definition set_endpoint :: "string \<Rightarrow> pgbar \<Rightarrow> pgbar" where
  "set_endpoint p b = (if \<not> is_updated b then b\<lparr>endpoint := p\<rparr> else b)"

definition set_lstatus :: "string \<Rightarrow> pgbar \<Rightarrow> pgbar" where
  "set_lstatus l b = init_length (if \<not> is_updated b then b\<lparr>lstatus := l\<rparr> else b) False"

definition set_rstatus :: "string \<Rightarrow> pgbar \<Rightarrow> pgbar" where
  "set_rstatus r b = init_length (if \<not> is_updated b then b\<lparr>rstatus := r\<rparr> else b) False"

definition set_bar_length :: "SizeT \<Rightarrow> pgbar \<Rightarrow> pgbar" where
  "set_bar_length l b = (if \<not> is_updated b then b\<lparr>bar_length := l\<rparr> else b)"

definition set_todo_col :: "string \<Rightarrow> pgbar \<Rightarrow> pgbar" where
  "set_todo_col dye b = (if \<not> is_updated b then b\<lparr>todo_col := dye\<rparr> else b)"

definition set_done_col :: "string \<Rightarrow> pgbar \<Rightarrow> pgbar" where
  "set_done_col dye b = (if \<not> is_updated b then b\<lparr>done_col := dye\<rparr> else b)"

definition set_status_col :: "string \<Rightarrow> pgbar \<Rightarrow> pgbar" where
  "set_status_col dye b = (if \<not> is_updated b then b\<lparr>status_col := dye\<rparr> else b)"

text \<open>\<^verbatim>\<open>set_style( style::Type )\<close> and \<^verbatim>\<open>set_style( style )\<close>.\<close>

definition set_style :: "8 word \<Rightarrow> pgbar \<Rightarrow> pgbar" where
  "set_style selection b =
     init_length (if \<not> is_updated b then b\<lparr>option := selection\<rparr> else b) False"

definition set_style_bundle :: "style \<Rightarrow> pgbar \<Rightarrow> pgbar" where
  "set_style_bundle selection b = (if is_updated b then b else apply_style b selection)"

section \<open>Calls and reachable objects\<close>

text \<open>
  The member functions a caller can invoke on one object, and their effect on the
  globals and the object.  An object is reachable when a public constructor followed
  by such calls produces it; between two calls the globals are arbitrary, since
  other objects of the class share them.
\<close>

datatype call =
    Update
  | UpdateBy SizeT
  | Reset
  | SetStep SizeT
  | SetTask SizeT
  | SetDone string
  | SetTodo string
  | SetStartpoint string
  | SetEndpoint string
  | SetLstatus string
  | SetRstatus string
  | SetBarLength SizeT
  | SetTodoCol string
  | SetDoneCol string
  | SetStatusCol string
  | SetStyle "8 word"
  | SetStyleBundle style

fun exec :: "call \<Rightarrow> globals \<times> pgbar \<Rightarrow> bad_pgbar option \<times> globals \<times> pgbar" where
  "exec Update gb = update gb"
| "exec (UpdateBy n) gb = update_by n gb"
| "exec Reset gb = (None, reset gb)"
| "exec (SetStep s) (g, b) = (fst (set_step s b), g, snd (set_step s b))"
| "exec (SetTask t) (g, b) = (fst (set_task t b), g, snd (set_task t b))"
| "exec (SetDone x) (g, b) = (None, g, set_done x b)"
| "exec (SetTodo x) (g, b) = (None, g, set_todo x b)"
| "exec (SetStartpoint x) (g, b) = (None, g, set_startpoint x b)"
| "exec (SetEndpoint x) (g, b) = (None, g, set_endpoint x b)"
| "exec (SetLstatus x) (g, b) = (None, g, set_lstatus x b)"
| "exec (SetRstatus x) (g, b) = (None, g, set_rstatus x b)"
| "exec (SetBarLength x) (g, b) = (None, g, set_bar_length x b)"
| "exec (SetTodoCol x) (g, b) = (None, g, set_todo_col x b)"
| "exec (SetDoneCol x) (g, b) = (None, g, set_done_col x b)"
| "exec (SetStatusCol x) (g, b) = (None, g, set_status_col x b)"
| "exec (SetStyle x) (g, b) = (None, g, set_style x b)"
| "exec (SetStyleBundle x) (g, b) = (None, g, set_style_bundle x b)"

inductive reachable :: "pgbar \<Rightarrow> bool" where
  reachable_new: "reachable (pgbar_new total_tsk each_step tty)"
| reachable_of_style: "reachable (pgbar_of_style initializer tty)"
| reachable_copy: "reachable lhs \<Longrightarrow> reachable (pgbar_copy lhs tty)"
| reachable_exec: "reachable b \<Longrightarrow> reachable (snd (snd (exec c (g, b))))"
| reachable_copy_assign: "reachable b \<Longrightarrow> reachable lhs \<Longrightarrow> reachable (copy_assign b lhs)"
| reachable_move_assign: "reachable b \<Longrightarrow> reachable rhs \<Longrightarrow> reachable (move_assign b rhs)"

text \<open>\<open>updates n\<close>: \<open>n\<close> calls of \<^verbatim>\<open>update()\<close> in a row, stopping at the first exception.\<close>

fun updates :: "nat \<Rightarrow> globals \<times> pgbar \<Rightarrow> bad_pgbar option \<times> globals \<times> pgbar" where
  "updates 0 gb = (None, gb)"
| "updates (Suc n) gb =
     (case updates n gb of
        (Some e, gb') \<Rightarrow> (Some e, gb')
      | (None, gb') \<Rightarrow> update gb')"

text \<open>
  \<open>same_config b b'\<close>: the object \<open>b'\<close> differs from \<open>b\<close> at most in its counter, its
  flags, the time of the last render and what it has written.
\<close>

definition same_config :: "pgbar \<Rightarrow> pgbar \<Rightarrow> bool" where
  "same_config b b' \<longleftrightarrow>
     b' = b\<lparr>update_flag := update_flag b', active_flag := active_flag b',
            last_invoke := last_invoke b', stream := stream b', task_cnt := task_cnt b'\<rparr>"

text \<open>
  \<open>run cs\<close>: the calls \<open>cs\<close> made one after the other on one object, the caller
  catching each exception; the result lists what each call threw.
\<close>

fun run :: "call list \<Rightarrow> globals \<times> pgbar \<Rightarrow> bad_pgbar option list \<times> globals \<times> pgbar" where
  "run [] gb = ([], gb)"
| "run (c # cs) gb =
     (case exec c gb of
        (e, gb') \<Rightarrow> (case run cs gb' of (es, gb'') \<Rightarrow> (e # es, gb'')))"

text \<open>
  \<open>agree b g g'\<close>: the globals \<open>g\<close> and \<open>g'\<close> have the same clock and, if the object \<open>b\<close>
  has started, the same render state as far as \<open>b\<close> reads it: the interval and the
  time of the first render are read on a terminal only, the average of
  \<^verbatim>\<open>show_rate\<close> only when the rate field is enabled as well.
\<close>

definition agree :: "pgbar \<Rightarrow> globals \<Rightarrow> globals \<Rightarrow> bool" where
  "agree b g g' \<longleftrightarrow>
     clock g = clock g' \<and> ticks g = ticks g' \<and>
     (is_updated b \<longrightarrow>
        done_flag g = done_flag g' \<and> last_bar_progress g = last_bar_progress g' \<and>
        (in_tty b \<longrightarrow>
           invoke_interval g = invoke_interval g' \<and> first_invoked g = first_invoked g' \<and>
           (bit (option b) bit_rate \<longrightarrow> rate_interval g = rate_interval g')))"

text \<open>
  \<open>related x y\<close>: two states of the globals and one object, as two runs may reach
  them, with the same object and agreeing globals.
\<close>

definition related :: "globals \<times> pgbar \<Rightarrow> globals \<times> pgbar \<Rightarrow> bool" where
  "related x y \<longleftrightarrow> snd x = snd y \<and> agree (snd x) (fst x) (fst y)"

section \<open>Binary64 rounding\<close>

text \<open>
  \<open>rnd\<close> is monotone, leaves the values of the format as they are, and moves a positive
  real by at most half a quantum.
\<close>

lemma rhe_of_int [simp]: "rhe (of_int n) = n"
  by (simp add: rhe_def)

lemma rhe_bounds: "\<lfloor>x\<rfloor> \<le> rhe x" "rhe x \<le> \<lfloor>x\<rfloor> + 1"
  by (simp_all add: rhe_def Let_def)

lemma rhe_ge: "of_int n \<le> x \<Longrightarrow> n \<le> rhe x"
  using rhe_bounds(1) [of x] by (meson le_floor_iff order_trans)

lemma rhe_le: "x \<le> of_int n \<Longrightarrow> rhe x \<le> n"
proof (cases "x = of_int n")
  case True then show ?thesis by simp
next
  case False
  assume "x \<le> of_int n"
  with False have "x < of_int n" by simp
  then have "\<lfloor>x\<rfloor> < n" by (simp add: floor_less_iff)
  with rhe_bounds(2) [of x] show ?thesis by simp
qed

lemma rhe_mono: "x \<le> y \<Longrightarrow> rhe x \<le> rhe y"
proof -
  assume xy: "x \<le> y"
  have fl: "\<lfloor>x\<rfloor> \<le> \<lfloor>y\<rfloor>" using xy by (rule floor_mono)
  show ?thesis
  proof (cases "\<lfloor>x\<rfloor> = \<lfloor>y\<rfloor>")
    case True
    then have "x - of_int \<lfloor>x\<rfloor> \<le> y - of_int \<lfloor>y\<rfloor>" using xy by simp
    then show ?thesis using True by (auto simp: rhe_def Let_def)
  next
    case False
    with fl have "\<lfloor>x\<rfloor> + 1 \<le> \<lfloor>y\<rfloor>" by simp
    with rhe_bounds(2) [of x] rhe_bounds(1) [of y] show ?thesis by simp
  qed
qed

lemma ilog2_bounds:
  assumes "0 < x"
  shows "2 powi (ilog2 x) \<le> x" "x < 2 powi (ilog2 x + 1)"
proof -
  have "2 powi (ilog2 x) \<le> x \<and> x < 2 powi (ilog2 x + 1)"
  proof (cases "1 \<le> x")
    case True
    then have p: "0 < \<lfloor>x\<rfloor>" by simp
    from bitlen_bounds [OF p]
    have b: "2 ^ nat (bitlen \<lfloor>x\<rfloor> - 1) \<le> \<lfloor>x\<rfloor>" "\<lfloor>x\<rfloor> < 2 ^ nat (bitlen \<lfloor>x\<rfloor>)" by simp_all
    have b1: "1 \<le> bitlen \<lfloor>x\<rfloor>" using p by (simp add: bitlen_alt_def)
    have e: "ilog2 x = bitlen \<lfloor>x\<rfloor> - 1" using True by (simp add: ilog2_def)
    have "(2::real) ^ nat (bitlen \<lfloor>x\<rfloor> - 1) \<le> of_int \<lfloor>x\<rfloor>"
      using b(1) by (metis of_int_le_iff of_int_numeral of_int_power)
    then have "(2::real) ^ nat (bitlen \<lfloor>x\<rfloor> - 1) \<le> x"
      using of_int_floor_le [of x] by (rule order_trans)
    moreover have "(2::real) powi (ilog2 x) = 2 ^ nat (bitlen \<lfloor>x\<rfloor> - 1)"
      using b1 by (simp add: e power_int_nonneg_exp)
    ultimately have l: "(2::real) powi (ilog2 x) \<le> x" by simp
    have "\<lfloor>x\<rfloor> + 1 \<le> 2 ^ nat (bitlen \<lfloor>x\<rfloor>)" using b(2) by simp
    then have "of_int (\<lfloor>x\<rfloor> + 1) \<le> (2::real) ^ nat (bitlen \<lfloor>x\<rfloor>)"
      by (metis of_int_le_iff of_int_numeral of_int_power)
    moreover have "x < of_int (\<lfloor>x\<rfloor> + 1)" by linarith
    ultimately have "x < (2::real) ^ nat (bitlen \<lfloor>x\<rfloor>)" by (rule less_le_trans [rotated])
    moreover have "(2::real) powi (ilog2 x + 1) = 2 ^ nat (bitlen \<lfloor>x\<rfloor>)"
      using b1 by (simp add: e power_int_nonneg_exp)
    ultimately have u: "x < (2::real) powi (ilog2 x + 1)" by simp
    from l u show ?thesis ..
  next
    case False
    define y where "y = 1 / x"
    have y1: "1 < y" using False assms by (simp add: y_def)
    define m where "m = \<lceil>y\<rceil> - 1"
    have m: "0 < m" "of_int m < y" "y \<le> of_int m + 1"
      using y1 by (simp_all add: m_def less_ceiling_iff) (linarith+)?
    from bitlen_bounds [OF m(1)]
    have b: "2 ^ nat (bitlen m - 1) \<le> m" "m < 2 ^ nat (bitlen m)" by simp_all
    have b1: "1 \<le> bitlen m" using m(1) by (simp add: bitlen_alt_def)
    have e: "ilog2 x = - bitlen m" using False by (simp add: ilog2_def m_def y_def)
    have "(2::real) ^ nat (bitlen m - 1) \<le> of_int m"
      using b(1) by (metis of_int_le_iff of_int_numeral of_int_power)
    then have l: "(2::real) ^ nat (bitlen m - 1) < y" using m(2) by (rule le_less_trans)
    have "m + 1 \<le> 2 ^ nat (bitlen m)" using b(2) by simp
    then have "of_int (m + 1) \<le> (2::real) ^ nat (bitlen m)"
      by (metis of_int_le_iff of_int_numeral of_int_power)
    moreover have "y \<le> of_int (m + 1)" using m(3) by simp
    ultimately have u: "y \<le> (2::real) ^ nat (bitlen m)" by (rule order_trans [rotated])
    have x: "1 / y = x" by (simp add: y_def)
    have "1 / (2::real) ^ nat (bitlen m) \<le> 1 / y"
      using u y1 by (intro divide_left_mono) simp_all
    then have "1 / (2::real) ^ nat (bitlen m) \<le> x" unfolding x .
    moreover have "(2::real) powi (ilog2 x) = 1 / 2 ^ nat (bitlen m)"
      using b1 unfolding e by (simp add: power_int_minus_divide power_int_nonneg_exp)
    ultimately have l': "(2::real) powi (ilog2 x) \<le> x" by simp
    have "1 / y < 1 / (2::real) ^ nat (bitlen m - 1)"
      using l y1 by (intro divide_strict_left_mono) simp_all
    then have "x < 1 / (2::real) ^ nat (bitlen m - 1)" unfolding x .
    moreover have "- bitlen m + 1 = - (bitlen m - 1)" by simp
    then have "(2::real) powi (ilog2 x + 1) = 1 / 2 ^ nat (bitlen m - 1)"
      using b1 unfolding e by (simp only: power_int_minus_divide) (simp add: power_int_nonneg_exp)
    ultimately have u': "x < (2::real) powi (ilog2 x + 1)" by simp
    from l' u' show ?thesis ..
  qed
  then show "2 powi (ilog2 x) \<le> x" "x < 2 powi (ilog2 x + 1)" by simp_all
qed


lemma two_powi_less_imp: "(2::real) powi m < 2 powi n \<Longrightarrow> m < n"
  using power_int_increasing [of n m "2::real"] by (cases "m < n") simp_all

lemma ilog2_mono: "0 < x \<Longrightarrow> x \<le> y \<Longrightarrow> ilog2 x \<le> ilog2 y"
proof -
  assume x: "0 < x" and xy: "x \<le> y"
  then have y: "0 < y" by simp
  have "2 powi (ilog2 x) \<le> x" using ilog2_bounds(1) [OF x] .
  also have "x \<le> y" by fact
  also have "y < 2 powi (ilog2 y + 1)" using ilog2_bounds(2) [OF y] .
  finally have "ilog2 x < ilog2 y + 1" by (rule two_powi_less_imp)
  then show ?thesis by simp
qed

lemma quantum_pos [simp]: "0 < quantum x" "0 \<le> quantum x" "quantum x \<noteq> 0"
  by (simp_all add: quantum_def)

lemma rnd_pos: "0 < x \<Longrightarrow> rnd x = of_int (rhe (x / quantum x)) * quantum x"
  by (simp add: rnd_def)

lemma rnd_zero [simp]: "rnd 0 = 0"
  by (simp add: rnd_def)

lemma rnd_minus: "rnd (- x) = - rnd x"
  by (simp add: rnd_def sgn_minus)

lemma rnd_nonneg: "0 \<le> x \<Longrightarrow> 0 \<le> rnd x"
proof (cases "x = 0")
  case True then show ?thesis by simp
next
  case False
  assume "0 \<le> x"
  with False have x: "0 < x" by simp
  have "of_int 0 \<le> x / quantum x" using x by (simp add: less_imp_le)
  then have "0 \<le> rhe (x / quantum x)" by (rule rhe_ge)
  then show ?thesis using x by (simp add: rnd_pos)
qed

text \<open>A value of the format is left as it is.\<close>

lemma rnd_exact:
  assumes m: "0 < m" "m < 2 ^ 53" and j: "- 1074 \<le> j"
  shows "rnd (of_int m * 2 powi j) = of_int m * 2 powi j"
proof -
  define x :: real where "x = of_int m * 2 powi j"
  have x: "0 < x" using m by (simp add: x_def)
  define E where "E = max (ilog2 x) (- 1022)"
  have "of_int m < (2::real) ^ 53" using m(2)
    by (metis of_int_less_iff of_int_numeral of_int_power)
  then have "x < 2 ^ 53 * 2 powi j" by (simp add: x_def)
  also have "\<dots> = 2 powi (53 + j)" by (simp add: power_int_add)
  finally have "2 powi (ilog2 x) < (2::real) powi (53 + j)"
    using ilog2_bounds(1) [OF x] by simp
  then have "ilog2 x < 53 + j" by (rule two_powi_less_imp)
  then have E: "0 \<le> j - (E - 52)" using j by (simp add: E_def)
  have q: "quantum x = 2 powi (E - 52)" by (simp add: quantum_def E_def)
  have "x / quantum x = of_int m * (2 powi j / 2 powi (E - 52))"
    by (simp only: q) (simp add: x_def)
  also have "2 powi j / 2 powi (E - 52) = (2::real) powi (j - (E - 52))"
    by (rule power_int_diff [symmetric]) simp
  also have "of_int m * (2::real) powi (j - (E - 52)) = of_int (m * 2 ^ nat (j - (E - 52)))"
    using E by (simp add: power_int_nonneg_exp)
  finally have "x / quantum x = of_int (m * 2 ^ nat (j - (E - 52)))" .
  then have "rhe (x / quantum x) = m * 2 ^ nat (j - (E - 52))" by (simp only: rhe_of_int)
  then have "rnd x = of_int (m * 2 ^ nat (j - (E - 52))) * 2 powi (E - 52)"
    using x by (simp add: rnd_pos q)
  also have "\<dots> = of_int m * (2 powi (j - (E - 52)) * 2 powi (E - 52))"
    using E by (simp add: power_int_nonneg_exp)
  also have "\<dots> = of_int m * 2 powi j"
    by (simp flip: power_int_add)
  finally show ?thesis by (simp add: x_def)
qed

lemma rnd_binade:
  assumes x: "0 < x"
  shows "2 powi (max (ilog2 x) (- 1022)) * of_bool (- 1022 \<le> ilog2 x) \<le> rnd x"
    "rnd x \<le> 2 powi (max (ilog2 x) (- 1022) + 1)"
proof -
  define E where "E = max (ilog2 x) (- 1022)"
  have q: "quantum x = 2 powi (E - 52)" by (simp add: quantum_def E_def)
  have "x < 2 powi (ilog2 x + 1)" using ilog2_bounds(2) [OF x] .
  also have "\<dots> \<le> 2 powi (E + 1)" by (intro power_int_increasing) (simp_all add: E_def)
  finally have "x / quantum x < 2 powi (E + 1) / 2 powi (E - 52)"
    by (simp add: q divide_strict_right_mono)
  also have "\<dots> = 2 powi 53" by (simp flip: power_int_diff)
  finally have "x / quantum x \<le> of_int (2 ^ 53)" by simp
  then have "rhe (x / quantum x) \<le> 2 ^ 53" by (rule rhe_le)
  then have "of_int (rhe (x / quantum x)) \<le> (2::real) ^ 53"
    by (metis of_int_le_iff of_int_numeral of_int_power)
  then have "rnd x \<le> 2 ^ 53 * 2 powi (E - 52)"
    using x by (simp add: rnd_pos q)
  also have "\<dots> = 2 powi (E + 1)"
    by (simp add: power_int_diff power_int_add)
  finally show "rnd x \<le> 2 powi (max (ilog2 x) (- 1022) + 1)" by (simp add: E_def)
  show "2 powi (max (ilog2 x) (- 1022)) * of_bool (- 1022 \<le> ilog2 x) \<le> rnd x"
  proof (cases "- 1022 \<le> ilog2 x")
    case False
    then show ?thesis using rnd_nonneg [of x] x by simp
  next
    case True
    then have E: "E = ilog2 x" by (simp add: E_def)
    have "2 powi E \<le> x" using ilog2_bounds(1) [OF x] by (simp add: E)
    then have "2 powi E / 2 powi (E - 52) \<le> x / quantum x"
      by (simp add: q divide_right_mono)
    moreover have "2 powi E / 2 powi (E - 52) = (2::real) powi 52" by (simp flip: power_int_diff)
    ultimately have "of_int (2 ^ 52) \<le> x / quantum x" by simp
    then have "2 ^ 52 \<le> rhe (x / quantum x)" by (rule rhe_ge)
    then have "(2::real) ^ 52 \<le> of_int (rhe (x / quantum x))"
      by (metis of_int_le_iff of_int_numeral of_int_power)
    then have "2 ^ 52 * 2 powi (E - 52) \<le> rnd x"
      using x by (simp add: rnd_pos q)
    moreover have "2 ^ 52 * 2 powi (E - 52) = (2::real) powi E"
      by (simp add: power_int_diff)
    ultimately show ?thesis using True by (simp add: E_def)
  qed
qed

lemma rnd_mono_pos:
  assumes x: "0 < x" and xy: "x \<le> y"
  shows "rnd x \<le> rnd y"
proof -
  have y: "0 < y" using x xy by simp
  define Ex where "Ex = max (ilog2 x) (- 1022)"
  define Ey where "Ey = max (ilog2 y) (- 1022)"
  have le: "Ex \<le> Ey" using ilog2_mono [OF x xy] by (simp add: Ex_def Ey_def)
  show ?thesis
  proof (cases "Ex = Ey")
    case True
    then have q: "quantum x = quantum y" by (simp add: quantum_def Ex_def Ey_def)
    have "x / quantum y \<le> y / quantum y" using xy by (intro divide_right_mono) simp_all
    then have "rhe (x / quantum y) \<le> rhe (y / quantum y)" by (rule rhe_mono)
    then show ?thesis using x y by (simp add: rnd_pos q)
  next
    case False
    with le have lt: "Ex + 1 \<le> Ey" by simp
    then have "- 1022 \<le> ilog2 y" by (auto simp: Ex_def Ey_def)
    then have "2 powi Ey \<le> rnd y" using rnd_binade(1) [OF y] by (simp add: Ey_def)
    moreover have "rnd x \<le> 2 powi (Ex + 1)" using rnd_binade(2) [OF x] by (simp add: Ex_def)
    moreover have "(2::real) powi (Ex + 1) \<le> 2 powi Ey"
      using lt by (intro power_int_increasing) simp_all
    ultimately show ?thesis by linarith
  qed
qed

lemma rnd_mono: "x \<le> y \<Longrightarrow> rnd x \<le> rnd y"
proof -
  assume xy: "x \<le> y"
  consider "0 < x" | "x \<le> 0" "0 \<le> y" | "y < 0" by linarith
  then show ?thesis
  proof cases
    case 1 then show ?thesis using xy by (rule rnd_mono_pos)
  next
    case 2
    then have "0 \<le> rnd y" "0 \<le> rnd (- x)" by (simp_all add: rnd_nonneg)
    then show ?thesis by (simp add: rnd_minus)
  next
    case 3
    then have "0 < - y" "- y \<le> - x" using xy by simp_all
    then have "rnd (- y) \<le> rnd (- x)" by (rule rnd_mono_pos)
    then show ?thesis by (simp add: rnd_minus)
  qed
qed


lemma rnd_nearest:
  assumes x: "0 < x"
  shows "\<bar>rnd x - x\<bar> \<le> quantum x / 2"
proof -
  define z where "z = x / quantum x"
  have "\<bar>of_int (rhe z) - z\<bar> \<le> 1 / 2"
    by (auto simp: rhe_def Let_def)
  then have "\<bar>of_int (rhe z) - z\<bar> * quantum x \<le> 1 / 2 * quantum x"
    by (intro mult_right_mono) simp_all
  moreover have "\<bar>of_int (rhe z) - z\<bar> * quantum x = \<bar>of_int (rhe z) * quantum x - z * quantum x\<bar>"
    by (simp add: abs_mult flip: left_diff_distrib)
  moreover have "z * quantum x = x" by (simp add: z_def)
  ultimately have "\<bar>of_int (rhe z) * quantum x - x\<bar> \<le> quantum x / 2" by simp
  then show ?thesis using x by (simp add: rnd_pos z_def)
qed

lemma ln_10_le: "ln (10::real) \<le> 5"
proof -
  have "(2::real) \<le> exp 1" using exp_ge_add_one_self [of "1::real"] by simp
  then have "(2::real) ^ 5 \<le> exp 1 ^ 5" by (intro power_mono) simp_all
  also have "exp 1 ^ 5 = exp (5::real)" using exp_of_nat_mult [of 5 "1::real"] by simp
  finally have "(10::real) \<le> exp 5" by simp
  then have "ln (10::real) \<le> ln (exp 5)" by (subst ln_le_cancel_iff) simp_all
  then show ?thesis by simp
qed

lemma log10_upper:
  assumes n: "0 < n" "n < 10 ^ k" and k: "k \<le> 14"
  shows "log 10 (real n) \<le> real k - 2 powi (- 49)"
proof -
  define eps :: real where "eps = 2 powi (- 49)"
  have eps: "0 < eps" by (simp add: eps_def)
  have "(10::real) ^ k \<le> 10 ^ 14" using k by (intro power_increasing) simp_all
  then have "(10::real) ^ k * (5 * eps) \<le> 10 ^ 14 * (5 * eps)"
    using eps by (intro mult_right_mono) simp_all
  also have "\<dots> \<le> 1" by (simp add: eps_def power_int_minus_divide)
  finally have a: "(10::real) ^ k - 1 \<le> 10 ^ k * (1 - 5 * eps)" by (simp add: algebra_simps)
  have "1 - 5 * eps \<le> 1 + (- eps * ln 10)" using ln_10_le eps by simp
  also have "\<dots> \<le> exp (- eps * ln 10)" by (rule exp_ge_add_one_self)
  also have "\<dots> = 10 powr (- eps)" by (simp add: powr_def)
  finally have "(10::real) ^ k * (1 - 5 * eps) \<le> 10 ^ k * 10 powr (- eps)"
    by (intro mult_left_mono) simp_all
  also have "\<dots> = 10 powr (real k) * 10 powr (- eps)" by (simp add: powr_realpow)
  also have "\<dots> = 10 powr (real k - eps)" by (simp flip: powr_add)
  finally have b: "(10::real) ^ k - 1 \<le> 10 powr (real k - eps)" using a by simp
  have "n + 1 \<le> 10 ^ k" using n(2) by simp
  then have "real (n + 1) \<le> real (10 ^ k)" by (rule of_nat_mono)
  then have "real n \<le> 10 ^ k - 1" by simp
  with b have "real n \<le> 10 powr (real k - eps)" by simp
  then show ?thesis using n(1) by (simp add: log_le_iff eps_def)
qed

lemma log10_lower:
  assumes n: "10 ^ j \<le> n"
  shows "real j \<le> log 10 (real n)"
  using le_log_of_power [of 10 j "real n"] n
  by (metis of_nat_le_iff of_nat_numeral of_nat_power one_less_numeral_iff semiring_norm(76))

lemma rnd_of_nat:
  assumes "n < 2 ^ 53"
  shows "rnd (real n) = real n"
proof (cases "n = 0")
  case True then show ?thesis by simp
next
  case False
  then have "0 < int n" "int n < 2 ^ 53" using assms by simp_all
  from rnd_exact [OF this, of 0] show ?thesis by simp
qed

lemma rnd_below_nat:
  assumes k: "0 < k" "k \<le> 15"
  shows "rnd (real k - 2 powi (- 49)) = real k - 2 powi (- 49)"
proof -
  have m: "0 < int k * 2 ^ 49 - 1" using k(1) by simp
  have "int k * 2 ^ 49 \<le> 15 * 2 ^ 49" using k(2) by simp
  then have m2: "int k * 2 ^ 49 - 1 < 2 ^ 53" by simp
  have e: "real_of_int (int k * 2 ^ 49 - 1) * 2 powi (- 49) = real k - 2 powi (- 49)"
    by (simp add: power_int_minus_divide algebra_simps)
  from rnd_exact [OF m m2, of "- 49"] show ?thesis unfolding e by simp
qed

text \<open>Below \<open>10 ^ 14\<close> the digit count computed through the logarithm is the exact one.\<close>

lemma digits_small:
  assumes n: "0 < n" "n < 10 ^ 14"
  shows "\<lfloor>rnd (rnd (log 10 (rnd (real n))) + 1)\<rfloor> = int (floorlog 10 n)"
proof -
  define k where "k = floorlog 10 n"
  have b: "10 ^ (k - 1) \<le> n" "n < 10 ^ k"
    using floorlog_bounds [of n 10] n(1) by (simp_all add: k_def)
  have k0: "0 < k" using n(1) by (simp add: k_def floorlog_def)
  have "k \<le> 14" using n(2) by (simp add: k_def floorlog_le_iff)
  then have k15: "k \<le> 15" "k + 1 \<le> 15" "k - 1 < 2 ^ 53" "k < 2 ^ 53" by simp_all
  have "n < 2 ^ 53" using n(2) by simp
  then have r: "rnd (real n) = real n" by (rule rnd_of_nat)
  define L where "L = log 10 (real n)"
  have lo: "real (k - 1) \<le> L" unfolding L_def using b(1) by (rule log10_lower)
  have up: "L \<le> real k - 2 powi (- 49)"
    unfolding L_def using n(1) b(2) \<open>k \<le> 14\<close> by (rule log10_upper)
  have "rnd (real (k - 1)) \<le> rnd L" using lo by (rule rnd_mono)
  then have lo1: "real (k - 1) \<le> rnd L" using rnd_of_nat [OF k15(3)] by simp
  have "rnd L \<le> rnd (real k - 2 powi (- 49))" using up by (rule rnd_mono)
  then have up1: "rnd L \<le> real k - 2 powi (- 49)" using rnd_below_nat [OF k0 k15(1)] by simp
  have "real k \<le> rnd L + 1" using lo1 k0 by (simp add: of_nat_diff)
  then have "rnd (real k) \<le> rnd (rnd L + 1)" by (rule rnd_mono)
  then have lo2: "real k \<le> rnd (rnd L + 1)" using rnd_of_nat [OF k15(4)] by simp
  have "rnd L + 1 \<le> real (k + 1) - 2 powi (- 49)" using up1 by simp
  then have "rnd (rnd L + 1) \<le> rnd (real (k + 1) - 2 powi (- 49))" by (rule rnd_mono)
  then have up2: "rnd (rnd L + 1) \<le> real (k + 1) - 2 powi (- 49)"
    using rnd_below_nat [of "k + 1"] k15(2) by simp
  have "(0::real) < 2 powi (- 49)" by simp
  with up2 have "rnd (rnd L + 1) < real k + 1" by simp
  with lo2 have "\<lfloor>rnd (rnd L + 1)\<rfloor> = int k" by (simp add: floor_eq_iff)
  then show ?thesis by (simp add: r L_def k_def)
qed


text \<open>
  The rule by which \<open>log10_digits\<close> is evaluated: below \<open>10 ^ 14\<close> it is the number of
  decimal digits.
\<close>

lemma log10_digits_code [code]:
  "log10_digits n =
     (if n < 100000000000000 then of_nat (floorlog 10 (unat n))
      else Code.abort (STR ''log10_digits'') (\<lambda>_. log10_digits n))"
proof (cases "n = 0")
  case True
  then show ?thesis by (simp add: log10_digits_def floorlog_def)
next
  case False
  show ?thesis
  proof (cases "n < 100000000000000")
    case True
    have p: "0 < unat n" using False by (simp add: unat_gt_0)
    have "unat n < unat (100000000000000 :: 64 word)"
      using True by (simp only: word_less_nat_alt)
    then have "unat n < 10 ^ 14" by simp
    from digits_small [OF p this] show ?thesis
      using True False by (simp add: log10_digits_def std_log10_def size_to_double_def)
  next
    case False
    then show ?thesis by simp
  qed
qed

lemma ln_10_ge: "2 \<le> ln (10::real)"
proof -
  have "exp (2::real) = exp 1 ^ 2" using exp_of_nat_mult [of 2 "1::real"] by simp
  also have "\<dots> \<le> 3 ^ 2" using exp_le by (intro power_mono) simp_all
  finally have "exp (2::real) \<le> 10" by simp
  then show ?thesis by (simp add: ln_ge_iff)
qed

text \<open>
  Just below \<open>10 ^ 15\<close> the logarithm is rounded up to 15, and the digit count is 16 for
  a number of 15 digits.
\<close>

lemma log10_digits_below_10_15: "log10_digits 999999999999999 = 16"
proof -
  define eps :: real where "eps = 2 powi (- 50)"
  define L :: real where "L = log 10 999999999999999"
  have eps: "0 < eps" by (simp add: eps_def)
  have "1 + 2 * eps \<le> 1 + eps * ln 10" using ln_10_ge eps by simp
  also have "\<dots> \<le> exp (eps * ln 10)" by (rule exp_ge_add_one_self)
  finally have "inverse (exp (eps * ln 10)) \<le> inverse (1 + 2 * eps)"
    using eps by (intro le_imp_inverse_le) simp_all
  moreover have "10 powr (- eps) = inverse (exp (eps * ln 10))"
    by (simp add: powr_def exp_minus)
  ultimately have "10 powr (- eps) \<le> inverse (1 + 2 * eps)" by simp
  then have "10 ^ 15 * 10 powr (- eps) \<le> 10 ^ 15 * inverse (1 + 2 * eps)"
    by (intro mult_left_mono) simp_all
  also have "\<dots> < 999999999999999"
    by (simp add: eps_def power_int_minus_divide field_simps)
  finally have "10 powr 15 * 10 powr (- eps) < 999999999999999" by simp
  then have "10 powr (15 - eps) < 999999999999999"
    by (simp only: powr_add [symmetric]) simp
  then have lo: "15 - eps < L" by (simp add: L_def less_log_iff)
  have "(999999999999999::real) < 10 powr 15" by simp
  then have up: "L < 15" unfolding L_def by (subst log_less_iff) simp_all
  have fl: "\<lfloor>L\<rfloor> = 14" using lo up eps by (simp add: floor_eq_iff eps_def power_int_minus_divide)
  have L0: "0 < L" "\<bar>L\<bar> = L" "1 \<le> L" using lo by (simp_all add: eps_def power_int_minus_divide)
  have "bitlen 14 = 4" by code_simp
  then have q: "quantum L = 2 powi (- 49)" using L0 by (simp add: quantum_def ilog2_def fl)
  define z where "z = L / quantum L"
  have "z = L * 2 ^ 49" by (simp add: z_def q power_int_minus_divide)
  moreover have "15 * 2 ^ 49 - 1 / 2 < L * 2 ^ 49" "L * 2 ^ 49 < 15 * 2 ^ 49"
    using lo up by (simp_all add: eps_def power_int_minus_divide field_simps)
  ultimately have z: "of_int (15 * 2 ^ 49 - 1) + 1 / 2 < z" "z < of_int (15 * 2 ^ 49 - 1) + 1"
    by simp_all
  then have "of_int (15 * 2 ^ 49 - 1) \<le> z" by linarith
  with z(2) have f: "\<lfloor>z\<rfloor> = 15 * 2 ^ 49 - 1" by (subst floor_eq_iff) simp
  have "1 / 2 < z - of_int \<lfloor>z\<rfloor>" using z(1) unfolding f by linarith
  then have "rhe z = \<lfloor>z\<rfloor> + 1" by (simp add: rhe_def Let_def)
  then have "rhe z = 15 * 2 ^ 49" unfolding f by simp
  then have "rhe (L / quantum L) = 15 * 2 ^ 49" by (simp only: z_def)
  then have r: "rnd L = 15" using L0 by (simp add: rnd_pos q power_int_minus_divide)
  have n: "rnd 999999999999999 = 999999999999999"
    using rnd_of_nat [of 999999999999999] by simp
  have s: "rnd 16 = 16" using rnd_of_nat [of 16] by simp
  show ?thesis
    by (simp add: log10_digits_def std_log10_def size_to_double_def n r s flip: L_def)
qed

section \<open>Properties of the counter\<close>

lemma is_ended_unat:
  "is_ended c \<longleftrightarrow>
     unat (num_tasks c) \<le> unat (current c) \<or>
     unat (num_tasks c) < unat (current c) + unat (step c)"
proof (cases "num_tasks c \<le> current c")
  case True
  then show ?thesis by (simp add: is_ended_def word_le_nat_alt)
next
  case False
  then have lt: "unat (current c) < unat (num_tasks c)"
    by (simp add: word_le_nat_alt)
  then have "unat (num_tasks c - current c) = unat (num_tasks c) - unat (current c)"
    by (simp add: unat_sub word_le_nat_alt)
  with False lt show ?thesis
    by (auto simp: is_ended_def word_less_nat_alt)
qed

text \<open>
  C10.  \<^verbatim>\<open>is_ended()\<close> is defined in every counter state.  It is true whenever
  \<^verbatim>\<open>current_ >= num_tasks_\<close> (overshoot states included); the subtraction
  \<^verbatim>\<open>num_tasks_ - current_\<close> is evaluated only when \<^verbatim>\<open>current_ < num_tasks_\<close>, where it
  does not wrap; so the result is the one computed over the unbounded naturals.
\<close>

theorem is_ended_total_no_wrap:
  "(num_tasks c \<le> current c \<longrightarrow> is_ended c) \<and>
   (\<not> num_tasks c \<le> current c \<longrightarrow>
      unat (num_tasks c - current c) = unat (num_tasks c) - unat (current c) \<and>
      unat (current c) < unat (num_tasks c) \<and>
      (is_ended c \<longleftrightarrow> unat (num_tasks c) - unat (current c) < unat (step c))) \<and>
   (is_ended c \<longleftrightarrow>
      unat (num_tasks c) \<le> unat (current c) \<or>
      unat (num_tasks c) < unat (current c) + unat (step c))"
proof (intro conjI impI)
  assume "num_tasks c \<le> current c"
  then show "is_ended c" by (simp add: is_ended_def)
next
  assume a: "\<not> num_tasks c \<le> current c"
  then show "unat (num_tasks c - current c) = unat (num_tasks c) - unat (current c)"
    by (simp add: unat_sub word_le_nat_alt)
next
  assume "\<not> num_tasks c \<le> current c"
  then show "unat (current c) < unat (num_tasks c)"
    by (simp add: word_le_nat_alt)
next
  assume a: "\<not> num_tasks c \<le> current c"
  then have "unat (num_tasks c - current c) = unat (num_tasks c) - unat (current c)"
    by (simp add: unat_sub word_le_nat_alt)
  with a show "is_ended c \<longleftrightarrow> unat (num_tasks c) - unat (current c) < unat (step c)"
    by (simp add: is_ended_def word_less_nat_alt)
next
  show "is_ended c \<longleftrightarrow>
      unat (num_tasks c) \<le> unat (current c) \<or>
      unat (num_tasks c) < unat (current c) + unat (step c)"
    by (rule is_ended_unat)
qed

theorem is_ended_total_no_wrap_witness:
  "is_ended \<lparr>num_tasks = 3, step = 2, current = 5\<rparr> \<and>
   is_ended \<lparr>num_tasks = 3, step = 2, current = 2\<rparr> \<and>
   \<not> is_ended \<lparr>num_tasks = 3, step = 2, current = 1\<rparr> \<and>
   unat ((3::SizeT) - 2) = 3 - 2"
  using is_ended_total_no_wrap [of "\<lparr>num_tasks = 3, step = 2, current = 5\<rparr>"]
        is_ended_total_no_wrap [of "\<lparr>num_tasks = 3, step = 2, current = 2\<rparr>"]
        is_ended_total_no_wrap [of "\<lparr>num_tasks = 3, step = 2, current = 1\<rparr>"]
  by simp

section \<open>What a render changes\<close>

lemma render_first_frame:
  "snd (render_first (g, b)) =
     b\<lparr>update_flag := True, stream := stream (snd (render_first (g, b)))\<rparr>"
  by (simp add: render_first_def is_updated_def emit_def Let_def split: prod.splits)

lemma render_progress_frame:
  "snd (render_progress (g, b)) = b\<lparr>stream := stream (snd (render_progress (g, b)))\<rparr>"
  by (simp add: render_progress_def emit_def Let_def split: prod.splits)

lemma render_final_frame:
  "snd (render_final (g, b)) = b\<lparr>stream := stream (snd (render_final (g, b)))\<rparr>"
  by (simp add: render_final_def emit_def Let_def split: prod.splits)

text \<open>A call of \<^verbatim>\<open>rendering()\<close> sets \<^verbatim>\<open>update_flag_\<close> and writes to the stream; nothing else
  of the object changes.\<close>

lemma rendering_frame:
  "snd (rendering (g, b)) =
     b\<lparr>update_flag := True, stream := stream (snd (rendering (g, b)))\<rparr>"
proof -
  obtain g1 b1 where r1: "render_first (g, b) = (g1, b1)" by (cases "render_first (g, b)")
  obtain g2 b2 where r2: "render_progress (g1, b1) = (g2, b2)" by (cases "render_progress (g1, b1)")
  obtain g3 b3 where r3: "render_final (g2, b2) = (g3, b3)" by (cases "render_final (g2, b2)")
  have f1: "b1 = b\<lparr>update_flag := True, stream := stream b1\<rparr>"
    using render_first_frame [of g b] r1 by simp
  have f2: "b2 = b1\<lparr>stream := stream b2\<rparr>"
    using render_progress_frame [of g1 b1] r2 by simp
  have f3: "b3 = b2\<lparr>stream := stream b3\<rparr>"
    using render_final_frame [of g2 b2] r3 by simp
  have "b3 = b\<lparr>update_flag := True, stream := stream b3\<rparr>"
    by (subst f3, subst f2, subst f1) simp
  with f1 show ?thesis
    by (simp add: rendering_def r1 r2 r3 Let_def)
qed

lemma active_frame:
  "\<exists>l st. snd (active (g, b)) =
     (if active_flag b then b
      else b\<lparr>update_flag := True, active_flag := True, last_invoke := l, stream := st\<rparr>)"
proof (cases "active_flag b")
  case True
  then show ?thesis by (simp add: active_def)
next
  case False
  obtain t g1 where n: "now g = (t, g1)" by (cases "now g")
  obtain g2 b2 where r: "rendering (g1, b\<lparr>last_invoke := t\<rparr>) = (g2, b2)"
    by (cases "rendering (g1, b\<lparr>last_invoke := t\<rparr>)")
  have h: "b2 = b\<lparr>last_invoke := t\<rparr>\<lparr>update_flag := True, stream := stream b2\<rparr>"
    using rendering_frame [of g1 "b\<lparr>last_invoke := t\<rparr>"] r by simp
  have "b2\<lparr>active_flag := True\<rparr> =
      b\<lparr>update_flag := True, active_flag := True, last_invoke := t, stream := stream b2\<rparr>"
    by (subst h) simp
  with False n r show ?thesis
    by (auto simp: active_def)
qed

lemma suspend_frame:
  "\<exists>st. snd (suspend (g, b)) =
     (if active_flag b then b\<lparr>update_flag := True, active_flag := False, stream := st\<rparr> else b)"
proof (cases "active_flag b")
  case False
  then show ?thesis by (simp add: suspend_def)
next
  case True
  obtain g2 b2 where r: "rendering (g, b) = (g2, b2)" by (cases "rendering (g, b)")
  have h: "b2 = b\<lparr>update_flag := True, stream := stream b2\<rparr>"
    using rendering_frame [of g b] r by simp
  have "b2\<lparr>active_flag := False\<rparr> =
      b\<lparr>update_flag := True, active_flag := False, stream := stream b2\<rparr>"
    by (subst h) simp
  with True r show ?thesis
    by (auto simp: suspend_def)
qed

lemma render_frame:
  "\<exists>l st. snd (render (g, b)) = b \<or>
          snd (render (g, b)) = b\<lparr>update_flag := True, last_invoke := l, stream := st\<rparr>"
proof -
  obtain t g1 where n: "now g = (t, g1)" by (cases "now g")
  obtain g2 b2 where r: "rendering (g1, b\<lparr>last_invoke := t\<rparr>) = (g2, b2)"
    by (cases "rendering (g1, b\<lparr>last_invoke := t\<rparr>)")
  have h: "b2 = b\<lparr>last_invoke := t\<rparr>\<lparr>update_flag := True, stream := stream b2\<rparr>"
    using rendering_frame [of g1 "b\<lparr>last_invoke := t\<rparr>"] r by simp
  have "b2 = b\<lparr>update_flag := True, last_invoke := t, stream := stream b2\<rparr>"
    by (subst h) simp
  with n r show ?thesis
    by (auto simp: render_def)
qed

lemma same_config_refl: "same_config b b"
  by (simp add: same_config_def)

lemma same_config_trans: "same_config a b \<Longrightarrow> same_config b c \<Longrightarrow> same_config a c"
  unfolding same_config_def
  by (cases a, cases b, cases c) simp

lemma same_config_rendering: "same_config b (snd (rendering (g, b)))"
proof -
  obtain st where "snd (rendering (g, b)) = b\<lparr>update_flag := True, stream := st\<rparr>"
    using rendering_frame [of g b] by blast
  then show ?thesis by (simp add: same_config_def)
qed

lemma same_config_active: "same_config b (snd (active (g, b)))"
proof -
  obtain l st where "snd (active (g, b)) =
     (if active_flag b then b
      else b\<lparr>update_flag := True, active_flag := True, last_invoke := l, stream := st\<rparr>)"
    using active_frame [of g b] by blast
  then show ?thesis by (simp add: same_config_def)
qed

lemma same_config_suspend: "same_config b (snd (suspend (g, b)))"
proof -
  obtain st where "snd (suspend (g, b)) =
     (if active_flag b then b\<lparr>update_flag := True, active_flag := False, stream := st\<rparr> else b)"
    using suspend_frame [of g b] by blast
  then show ?thesis by (simp add: same_config_def)
qed

lemma same_config_render: "same_config b (snd (render (g, b)))"
proof -
  obtain l st where "snd (render (g, b)) = b \<or>
          snd (render (g, b)) = b\<lparr>update_flag := True, last_invoke := l, stream := st\<rparr>"
    using render_frame [of g b] by blast
  then show ?thesis by (auto simp: same_config_def)
qed

lemma same_config_task_cnt: "same_config b (b\<lparr>task_cnt := c\<rparr>)"
  by (simp add: same_config_def)

lemma task_cnt_rendering: "task_cnt (snd (rendering (g, b))) = task_cnt b"
  by (subst rendering_frame) simp

lemma update_flag_rendering: "update_flag (snd (rendering (g, b)))"
  by (subst rendering_frame) simp

lemma active_effect:
  "task_cnt (snd (active (g, b))) = task_cnt b \<and>
   (update_flag b \<or> \<not> active_flag b \<longrightarrow> update_flag (snd (active (g, b))))"
proof -
  obtain l st where "snd (active (g, b)) =
     (if active_flag b then b
      else b\<lparr>update_flag := True, active_flag := True, last_invoke := l, stream := st\<rparr>)"
    using active_frame [of g b] by blast
  then show ?thesis by simp
qed

lemma suspend_effect:
  "task_cnt (snd (suspend (g, b))) = task_cnt b \<and>
   (update_flag b \<longrightarrow> update_flag (snd (suspend (g, b)))) \<and>
   \<not> active_flag (snd (suspend (g, b)))"
proof -
  obtain st where "snd (suspend (g, b)) =
     (if active_flag b then b\<lparr>update_flag := True, active_flag := False, stream := st\<rparr> else b)"
    using suspend_frame [of g b] by blast
  then show ?thesis by simp
qed

lemma render_effect:
  "task_cnt (snd (render (g, b))) = task_cnt b \<and>
   (update_flag b \<longrightarrow> update_flag (snd (render (g, b)))) \<and>
   active_flag (snd (render (g, b))) = active_flag b"
proof -
  obtain l st where "snd (render (g, b)) = b \<or>
          snd (render (g, b)) = b\<lparr>update_flag := True, last_invoke := l, stream := st\<rparr>"
    using render_frame [of g b] by blast
  then show ?thesis by auto
qed

text \<open>What a call of \<^verbatim>\<open>do_update\<close> that passes both checks does.\<close>

lemma do_update_ok:
  assumes nd: "\<not> is_done b" and nz: "num_tasks (task_cnt b) \<noteq> 0"
  shows "fst (do_update f (g, b)) = None \<and>
         task_cnt (snd (snd (do_update f (g, b)))) = f (task_cnt b) \<and>
         same_config b (snd (snd (do_update f (g, b)))) \<and>
         (update_flag b \<or> \<not> active_flag b \<longrightarrow> update_flag (snd (snd (do_update f (g, b)))))"
proof -
  define gb1 where "gb1 = (if \<not> is_updated b then active (g, b) else (g, b))"
  define gb2 where "gb2 = render (fst gb1, (snd gb1)\<lparr>task_cnt := f (task_cnt (snd gb1))\<rparr>)"
  define gb3 where "gb3 = (if is_ended (task_cnt (snd gb2)) then suspend gb2 else gb2)"
  have res: "do_update f (g, b) = (None, gb3)"
    using nd nz
    by (simp add: do_update_def counter_end_def gb1_def gb2_def gb3_def split: prod.splits)
  have t1: "task_cnt (snd gb1) = task_cnt b"
    using active_effect [of g b] by (simp add: gb1_def)
  have u1: "update_flag b \<or> \<not> active_flag b \<longrightarrow> update_flag (snd gb1)"
    using active_effect [of g b] by (auto simp: gb1_def is_updated_def)
  have c1: "same_config b (snd gb1)"
    using same_config_active [of b g] by (simp add: gb1_def same_config_refl)
  have t2: "task_cnt (snd gb2) = f (task_cnt b)"
    using render_effect [of "fst gb1" "(snd gb1)\<lparr>task_cnt := f (task_cnt (snd gb1))\<rparr>"] t1
    by (simp add: gb2_def)
  have u2: "update_flag (snd gb1) \<longrightarrow> update_flag (snd gb2)"
    using render_effect [of "fst gb1" "(snd gb1)\<lparr>task_cnt := f (task_cnt (snd gb1))\<rparr>"]
    by (simp add: gb2_def)
  have c2: "same_config (snd gb1) (snd gb2)"
    unfolding gb2_def
    by (rule same_config_trans [OF same_config_task_cnt same_config_render])
  have t3: "task_cnt (snd gb3) = task_cnt (snd gb2)"
    using suspend_effect [of "fst gb2" "snd gb2"] by (simp add: gb3_def)
  have u3: "update_flag (snd gb2) \<longrightarrow> update_flag (snd gb3)"
    using suspend_effect [of "fst gb2" "snd gb2"] by (simp add: gb3_def)
  have c3: "same_config (snd gb2) (snd gb3)"
    using same_config_suspend [of "snd gb2" "fst gb2"] by (simp add: gb3_def same_config_refl)
  from res t2 t3 u1 u2 u3 same_config_trans [OF c1 same_config_trans [OF c2 c3]]
  show ?thesis by simp
qed

lemma pgbar_new_fields:
  "update_flag (pgbar_new t s tty) = False"
  "active_flag (pgbar_new t s tty) = False"
  "task_cnt (pgbar_new t s tty) = \<lparr>num_tasks = t, step = s, current = 0\<rparr>"
  "in_tty (pgbar_new t s tty) = tty"
  "stream (pgbar_new t s tty) = []"
  by (simp_all add: pgbar_new_def pgbar_base_def init_length_def Let_def
        assign_counter_def mk_counter_def)

lemma reset_idem: "reset (reset gb) = reset gb"
proof (cases gb)
  case (Pair g b)
  show ?thesis
  proof (cases "is_updated b")
    case False
    with Pair show ?thesis by (simp add: reset_def)
  next
    case True
    obtain g1 b1 where s: "suspend (g, b\<lparr>task_cnt := assign_value (task_cnt b) 0\<rparr>) = (g1, b1)"
      by (cases "suspend (g, b\<lparr>task_cnt := assign_value (task_cnt b) 0\<rparr>)")
    with Pair True show ?thesis by (simp add: reset_def is_updated_def)
  qed
qed

lemma reset_effect:
  assumes "is_updated b"
  shows "\<not> update_flag (snd (reset (g, b))) \<and>
         \<not> active_flag (snd (reset (g, b))) \<and>
         task_cnt (snd (reset (g, b))) = (task_cnt b)\<lparr>current := 0\<rparr> \<and>
         same_config b (snd (reset (g, b)))"
proof -
  let ?b0 = "b\<lparr>task_cnt := assign_value (task_cnt b) 0\<rparr>"
  obtain g1 b1 where s: "suspend (g, ?b0) = (g1, b1)" by (cases "suspend (g, ?b0)")
  have r: "reset (g, b) = (g1, b1\<lparr>update_flag := False\<rparr>)"
    using assms s by (simp add: reset_def)
  have e: "task_cnt b1 = task_cnt ?b0" "\<not> active_flag b1"
    using suspend_effect [of g ?b0] s by simp_all
  have c: "same_config ?b0 b1"
    using same_config_suspend [of ?b0 g] s by simp
  have c2: "same_config b1 (b1\<lparr>update_flag := False\<rparr>)"
    by (simp add: same_config_def)
  have "same_config b (b1\<lparr>update_flag := False\<rparr>)"
    by (rule same_config_trans [OF same_config_task_cnt same_config_trans [OF c c2]])
  with r e show ?thesis by (simp add: assign_value_def)
qed

section \<open>Errors of \<^verbatim>\<open>update\<close>\<close>

lemma do_update_error:
  "is_done b \<Longrightarrow> do_update f (g, b) = (Some updating_full_bar, g, b)"
  "\<not> is_done b \<Longrightarrow> num_tasks (task_cnt b) = 0 \<Longrightarrow> do_update f (g, b) = (Some zero_tasks, g, b)"
  by (simp_all add: do_update_def counter_end_def)

lemma do_update_error_iff:
  "fst (do_update f (g, b)) \<noteq> None \<longleftrightarrow> is_done b \<or> num_tasks (task_cnt b) = 0"
proof (cases "is_done b \<or> num_tasks (task_cnt b) = 0")
  case True
  then show ?thesis by (auto simp: do_update_def counter_end_def)
next
  case False
  with do_update_ok [of b f g] show ?thesis by simp
qed

lemma do_update_error_state:
  "fst (do_update f (g, b)) \<noteq> None \<Longrightarrow> snd (do_update f (g, b)) = (g, b)"
proof -
  assume a: "fst (do_update f (g, b)) \<noteq> None"
  then have "is_done b \<or> num_tasks (task_cnt b) = 0"
    by (simp only: do_update_error_iff)
  then show ?thesis by (auto simp: do_update_def counter_end_def)
qed

text \<open>
  C6.  \<^verbatim>\<open>update()\<close> and \<^verbatim>\<open>update( n )\<close> throw \<^verbatim>\<open>bad_pgbar\<close> "updating a full progress
  bar" on a finished bar, and \<^verbatim>\<open>bad_pgbar\<close> "the number of tasks is zero" on a bar that is
  not finished and whose total is zero.  These are the only two cases in which they
  throw, and whenever they throw, the globals and the object are exactly as they
  were before the call.
\<close>

theorem update_errors_leave_state:
  "(is_done b \<longrightarrow>
      update (g, b) = (Some updating_full_bar, g, b) \<and>
      update_by n (g, b) = (Some updating_full_bar, g, b)) \<and>
   (\<not> is_done b \<and> num_tasks (task_cnt b) = 0 \<longrightarrow>
      update (g, b) = (Some zero_tasks, g, b) \<and>
      update_by n (g, b) = (Some zero_tasks, g, b)) \<and>
   (fst (update (g, b)) \<noteq> None \<longleftrightarrow> is_done b \<or> num_tasks (task_cnt b) = 0) \<and>
   (fst (update_by n (g, b)) \<noteq> None \<longleftrightarrow> is_done b \<or> num_tasks (task_cnt b) = 0) \<and>
   (fst (update (g, b)) \<noteq> None \<longrightarrow> snd (update (g, b)) = (g, b)) \<and>
   (fst (update_by n (g, b)) \<noteq> None \<longrightarrow> snd (update_by n (g, b)) = (g, b))"
  unfolding update_def update_by_def
  by (intro conjI impI do_update_error do_update_error_iff do_update_error_state) simp_all

theorem update_errors_leave_state_witness:
  "is_done ((pgbar_new 1 1 False)\<lparr>update_flag := True,
              task_cnt := \<lparr>num_tasks = 1, step = 1, current = 1\<rparr>\<rparr>) \<and>
   update (init_globals (\<lambda>n. 0), (pgbar_new 1 1 False)\<lparr>update_flag := True,
              task_cnt := \<lparr>num_tasks = 1, step = 1, current = 1\<rparr>\<rparr>) =
     (Some updating_full_bar, init_globals (\<lambda>n. 0), (pgbar_new 1 1 False)\<lparr>update_flag := True,
              task_cnt := \<lparr>num_tasks = 1, step = 1, current = 1\<rparr>\<rparr>) \<and>
   \<not> is_done (pgbar_new 0 1 False) \<and>
   num_tasks (task_cnt (pgbar_new 0 1 False)) = 0 \<and>
   update (init_globals (\<lambda>n. 0), pgbar_new 0 1 False) =
     (Some zero_tasks, init_globals (\<lambda>n. 0), pgbar_new 0 1 False)"
  using update_errors_leave_state [of "(pgbar_new 1 1 False)\<lparr>update_flag := True,
              task_cnt := \<lparr>num_tasks = 1, step = 1, current = 1\<rparr>\<rparr>" "init_globals (\<lambda>n. 0)" 0]
        update_errors_leave_state [of "pgbar_new 0 1 False" "init_globals (\<lambda>n. 0)" 0]
  by (simp add: is_done_def is_updated_def is_ended_def pgbar_new_fields)

section \<open>\<^verbatim>\<open>reset\<close>\<close>

text \<open>
  C7.  \<^verbatim>\<open>reset()\<close> on a finished bar leaves a bar that is not finished and not
  started, with \<^verbatim>\<open>current_\<close> zero and the total and the step unchanged (the
  configuration is unchanged as well); the counter's own \<^verbatim>\<open>is_ended()\<close> is false
  too when the step does not exceed a total that is not zero.  A second \<^verbatim>\<open>reset()\<close>
  changes nothing, neither in the object nor in the globals.
\<close>

theorem reset_finished_bar:
  "is_done b \<Longrightarrow>
     \<not> is_done (snd (reset (g, b))) \<and>
     \<not> is_updated (snd (reset (g, b))) \<and>
     current (task_cnt (snd (reset (g, b)))) = 0 \<and>
     num_tasks (task_cnt (snd (reset (g, b)))) = num_tasks (task_cnt b) \<and>
     step (task_cnt (snd (reset (g, b)))) = step (task_cnt b) \<and>
     same_config b (snd (reset (g, b))) \<and>
     (num_tasks (task_cnt b) \<noteq> 0 \<and> step (task_cnt b) \<le> num_tasks (task_cnt b) \<longrightarrow>
        \<not> is_ended (task_cnt (snd (reset (g, b))))) \<and>
     reset (reset (g, b)) = reset (g, b)"
  using reset_effect [of b g] reset_idem [of "(g, b)"]
  by (auto simp: is_done_def is_updated_def is_ended_def word_le_nat_alt word_less_nat_alt unat_eq_0)

theorem reset_finished_bar_witness:
  "is_done ((pgbar_new 1 1 False)\<lparr>update_flag := True,
              task_cnt := \<lparr>num_tasks = 1, step = 1, current = 1\<rparr>\<rparr>) \<and>
   current (task_cnt (snd (reset (init_globals (\<lambda>n. 0), (pgbar_new 1 1 False)\<lparr>update_flag := True,
              task_cnt := \<lparr>num_tasks = 1, step = 1, current = 1\<rparr>\<rparr>)))) = 0 \<and>
   \<not> is_ended (task_cnt (snd (reset (init_globals (\<lambda>n. 0), (pgbar_new 1 1 False)\<lparr>update_flag := True,
              task_cnt := \<lparr>num_tasks = 1, step = 1, current = 1\<rparr>\<rparr>)))) \<and>
   \<not> is_done (snd (reset (init_globals (\<lambda>n. 0), (pgbar_new 1 1 False)\<lparr>update_flag := True,
              task_cnt := \<lparr>num_tasks = 1, step = 1, current = 1\<rparr>\<rparr>)))"
  using reset_finished_bar [of "(pgbar_new 1 1 False)\<lparr>update_flag := True,
              task_cnt := \<lparr>num_tasks = 1, step = 1, current = 1\<rparr>\<rparr>" "init_globals (\<lambda>n. 0)"]
  by (simp add: is_done_def is_updated_def is_ended_def pgbar_new_fields)

section \<open>The counter bound\<close>

text \<open>Where the bound \<^verbatim>\<open>current_ <= num_tasks_\<close> is kept: by every \<^verbatim>\<open>update( n )\<close>, by
  every \<^verbatim>\<open>update()\<close> of a started bar, and by the first \<^verbatim>\<open>update()\<close> of a bar whose
  step does not exceed its total.\<close>

lemma add_assign_bounded: "current (add_assign c n) \<le> num_tasks (add_assign c n)"
  by (simp add: add_assign_def not_less)

lemma incr_bounded:
  assumes "\<not> is_ended c"
  shows "current (incr c) \<le> num_tasks (incr c)"
proof -
  from assms have "unat (current c) + unat (step c) \<le> unat (num_tasks c)"
    by (simp add: is_ended_unat)
  moreover have "unat (num_tasks c) < 2 ^ LENGTH(64)"
    by (rule unsigned_less)
  ultimately have "unat (current c) + unat (step c) < 2 ^ LENGTH(64)"
    by (rule le_less_trans)
  then have "unat (current c + step c) = unat (current c) + unat (step c)"
    by (simp only: unat_add_lem [THEN iffD1])
  moreover note \<open>unat (current c) + unat (step c) \<le> unat (num_tasks c)\<close>
  ultimately show ?thesis by (simp add: incr_def word_le_nat_alt)
qed

lemma update_by_keeps_bound:
  "fst (update_by n (g, b)) = None \<Longrightarrow>
     current (task_cnt (snd (snd (update_by n (g, b))))) \<le>
     num_tasks (task_cnt (snd (snd (update_by n (g, b)))))"
proof -
  assume "fst (update_by n (g, b)) = None"
  then have "\<not> (is_done b \<or> num_tasks (task_cnt b) = 0)"
    using do_update_error_iff [of "\<lambda>c. add_assign c n" g b] by (simp add: update_by_def)
  then show ?thesis
    using do_update_ok [of b "\<lambda>c. add_assign c n" g]
    by (simp add: update_by_def add_assign_bounded)
qed

lemma update_keeps_bound:
  assumes ok: "fst (update (g, b)) = None"
    and st: "is_updated b \<or> (current (task_cnt b) = 0 \<and> step (task_cnt b) \<le> num_tasks (task_cnt b))"
  shows "current (task_cnt (snd (snd (update (g, b))))) \<le>
         num_tasks (task_cnt (snd (snd (update (g, b)))))"
proof -
  from ok have n: "\<not> is_done b" "num_tasks (task_cnt b) \<noteq> 0"
    using do_update_error_iff [of incr g b] by (simp_all add: update_def)
  have "\<not> is_ended (task_cnt b)"
  proof (cases "is_updated b")
    case True
    with n show ?thesis by (simp add: is_done_def)
  next
    case False
    with st n(2) show ?thesis
      by (auto simp: is_ended_unat word_le_nat_alt unat_eq_0)
  qed
  then have "current (incr (task_cnt b)) \<le> num_tasks (incr (task_cnt b))"
    by (rule incr_bounded)
  then show ?thesis
    using do_update_ok [OF n, of incr g] by (simp add: update_def)
qed

text \<open>
  C1.  The code at a bar built with total 1 and step 2 on a sink that is not a
  terminal: the first \<^verbatim>\<open>update()\<close> is accepted and leaves \<^verbatim>\<open>current_\<close> at 2, above the
  total of 1.  \<^verbatim>\<open>operator++\<close> does not clamp, and the check of \<^verbatim>\<open>is_done()\<close> that keeps
  later calls within the total does not apply to a bar that has not started.
\<close>

theorem update_overshoots_total:
  "fst (update (g, pgbar_new 1 2 False)) = None \<and>
   current (task_cnt (snd (snd (update (g, pgbar_new 1 2 False))))) = 2 \<and>
   num_tasks (task_cnt (snd (snd (update (g, pgbar_new 1 2 False))))) = 1 \<and>
   \<not> current (task_cnt (snd (snd (update (g, pgbar_new 1 2 False)))))
       \<le> num_tasks (task_cnt (snd (snd (update (g, pgbar_new 1 2 False)))))"
  using do_update_ok [of "pgbar_new 1 2 False" incr g]
  by (simp add: update_def is_done_def is_updated_def pgbar_new_fields incr_def word_le_nat_alt)

section \<open>How many updates finish a bar\<close>

lemma unat_steps:
  fixes S T :: SizeT
  assumes "k * unat S \<le> unat T"
  shows "unat (of_nat k * S) = k * unat S"
proof -
  have "unat T < 2 ^ 64" using unsigned_less [of T] by simp
  with assms have lt: "k * unat S < 2 ^ 64" by simp
  show ?thesis
  proof (cases "unat S = 0")
    case True
    then have "S = 0" by (simp add: unat_eq_0)
    then show ?thesis by simp
  next
    case False
    then have "k \<le> k * unat S" by simp
    from lt \<open>k \<le> k * unat S\<close> have k: "k < 2 ^ 64" by (rule le_less_trans [rotated])
    then have "unat (of_nat k :: SizeT) = k" by (simp add: unat_of_nat)
    with lt show ?thesis by (simp add: unat_mult_lem [THEN iffD1])
  qed
qed

lemma is_ended_after_steps:
  assumes s: "0 < unat S" and le: "k * unat S \<le> unat T"
  shows "is_ended \<lparr>num_tasks = T, step = S, current = of_nat k * S\<rparr> \<longleftrightarrow> unat T div unat S \<le> k"
proof -
  have c: "unat (of_nat k * S) = k * unat S" by (rule unat_steps [OF le])
  have "unat T div unat S < Suc k \<longleftrightarrow> unat T < Suc k * unat S"
    using s by (simp only: div_less_iff_less_mult)
  with le show ?thesis
    by (auto simp: is_ended_unat c)
qed

text \<open>The state after \<open>k\<close> calls of \<^verbatim>\<open>update()\<close> on a new bar, as long as \<open>k\<close> does not
  exceed \<open>max 1 (total div step)\<close>.\<close>

lemma updates_state:
  assumes T: "T \<noteq> 0" and S: "S \<noteq> 0"
  shows "k \<le> max 1 (unat T div unat S) \<Longrightarrow>
         fst (updates k (g, pgbar_new T S tty)) = None \<and>
         task_cnt (snd (snd (updates k (g, pgbar_new T S tty)))) =
           \<lparr>num_tasks = T, step = S, current = of_nat k * S\<rparr> \<and>
         (update_flag (snd (snd (updates k (g, pgbar_new T S tty)))) \<longleftrightarrow> 0 < k) \<and>
         (k = 0 \<longrightarrow> \<not> active_flag (snd (snd (updates k (g, pgbar_new T S tty)))))"
proof (induction k)
  case 0
  show ?case by (simp add: pgbar_new_fields)
next
  case (Suc k)
  let ?r = "updates k (g, pgbar_new T S tty)"
  let ?b = "snd (snd ?r)"
  from Suc have ih:
    "fst ?r = None"
    "task_cnt ?b = \<lparr>num_tasks = T, step = S, current = of_nat k * S\<rparr>"
    "update_flag ?b \<longleftrightarrow> 0 < k"
    "k = 0 \<longrightarrow> \<not> active_flag ?b"
    by simp_all
  have s: "0 < unat S" using S by (simp add: unat_gt_0)
  have nd: "\<not> is_done ?b"
  proof (cases "k = 0")
    case True
    with ih show ?thesis by (simp add: is_done_def is_updated_def)
  next
    case False
    with Suc.prems have k: "Suc k \<le> unat T div unat S" by simp
    then have "Suc k * unat S \<le> unat T"
      using s by (simp only: less_eq_div_iff_mult_less_eq)
    then have "k * unat S \<le> unat T" by simp
    from is_ended_after_steps [OF s this] k ih show ?thesis
      by (simp add: is_done_def)
  qed
  have nz: "num_tasks (task_cnt ?b) \<noteq> 0" using ih T by simp
  have u: "updates (Suc k) (g, pgbar_new T S tty) = update (snd ?r)"
    using ih(1) by (cases ?r) simp
  have fl: "update_flag ?b \<or> \<not> active_flag ?b" using ih by auto
  from do_update_ok [OF nd nz, of incr "fst (snd ?r)"] fl ih(2)
  show ?case
    unfolding u by (simp add: update_def incr_def algebra_simps)
qed

lemma updates_done_iff:
  assumes T: "T \<noteq> 0" and S: "S \<noteq> 0" and k: "k \<le> max 1 (unat T div unat S)"
  shows "is_done (snd (snd (updates k (g, pgbar_new T S tty)))) \<longleftrightarrow>
         k = max 1 (unat T div unat S)"
proof -
  let ?b = "snd (snd (updates k (g, pgbar_new T S tty)))"
  have s: "0 < unat S" using S by (simp add: unat_gt_0)
  from updates_state [OF T S k, of g tty] have st:
    "task_cnt ?b = \<lparr>num_tasks = T, step = S, current = of_nat k * S\<rparr>"
    "update_flag ?b \<longleftrightarrow> 0 < k"
    by simp_all
  show ?thesis
  proof (cases "k = 0")
    case True
    with st show ?thesis by (simp add: is_done_def is_updated_def)
  next
    case False
    show ?thesis
    proof (cases "unat T div unat S = 0")
      case True
      with k False have k1: "k = 1" by simp
      from True s have "unat T < unat S" by (simp add: div_eq_0_iff)
      then have "is_ended \<lparr>num_tasks = T, step = S, current = S\<rparr>"
        by (simp add: is_ended_unat)
      with st k1 True show ?thesis by (simp add: is_done_def is_updated_def)
    next
      case nonzero: False
      with k have "k \<le> unat T div unat S" by simp
      then have "k * unat S \<le> unat T"
        using s by (simp only: less_eq_div_iff_mult_less_eq)
      from is_ended_after_steps [OF s this] st False k nonzero show ?thesis
        by (auto simp: is_done_def is_updated_def)
    qed
  qed
qed

lemma updates_past_done:
  assumes T: "T \<noteq> 0" and S: "S \<noteq> 0"
  shows "fst (updates (Suc (max 1 (unat T div unat S))) (g, pgbar_new T S tty)) =
           Some updating_full_bar"
proof -
  let ?n = "max 1 (unat T div unat S)"
  let ?r = "updates ?n (g, pgbar_new T S tty)"
  have f: "fst ?r = None" using updates_state [OF T S, of ?n g tty] by simp
  have d: "is_done (snd (snd ?r))" using updates_done_iff [OF T S, of ?n g tty] by simp
  have "updates (Suc ?n) (g, pgbar_new T S tty) = update (snd ?r)"
    using f by (cases ?r) simp
  also have "\<dots> = (Some updating_full_bar, snd ?r)"
    using do_update_error(1) [OF d, of incr "fst (snd ?r)"] by (simp add: update_def)
  finally show ?thesis by simp
qed

text \<open>
  C2, as the code has it.  For a total \<open>T > 0\<close> and a step \<open>S > 0\<close>, a new bar is
  finished after exactly \<open>max 1 (T div S)\<close> calls of \<^verbatim>\<open>update()\<close>: every call up to that
  number is accepted, the bar is not finished before it, it is finished at it, and
  the next call throws.  \<open>T div S\<close> is the quotient rounded down: \<^verbatim>\<open>is_ended()\<close> holds
  as soon as fewer than \<open>S\<close> tasks remain.
\<close>

theorem updates_finish_bar:
  "0 < T \<Longrightarrow> 0 < S \<Longrightarrow>
     (\<forall>k < max 1 (unat T div unat S).
        fst (updates k (g, pgbar_new T S tty)) = None \<and>
        \<not> is_done (snd (snd (updates k (g, pgbar_new T S tty))))) \<and>
     fst (updates (max 1 (unat T div unat S)) (g, pgbar_new T S tty)) = None \<and>
     is_done (snd (snd (updates (max 1 (unat T div unat S)) (g, pgbar_new T S tty)))) \<and>
     fst (updates (Suc (max 1 (unat T div unat S))) (g, pgbar_new T S tty)) =
       Some updating_full_bar"
proof -
  assume "0 < T" "0 < S"
  then have T: "T \<noteq> 0" and S: "S \<noteq> 0" by auto
  let ?n = "max 1 (unat T div unat S)"
  have a: "\<forall>k < ?n. fst (updates k (g, pgbar_new T S tty)) = None \<and>
        \<not> is_done (snd (snd (updates k (g, pgbar_new T S tty))))"
  proof (intro allI impI)
    fix k assume k: "k < ?n"
    then have le: "k \<le> ?n" by simp
    from updates_state [OF T S le, of g tty] updates_done_iff [OF T S le, of g tty] k
    show "fst (updates k (g, pgbar_new T S tty)) = None \<and>
        \<not> is_done (snd (snd (updates k (g, pgbar_new T S tty))))"
      by simp
  qed
  have b: "fst (updates ?n (g, pgbar_new T S tty)) = None"
    using updates_state [OF T S, of ?n g tty] by simp
  have c: "is_done (snd (snd (updates ?n (g, pgbar_new T S tty))))"
    using updates_done_iff [OF T S, of ?n g tty] by simp
  from a b c updates_past_done [OF T S, of g tty] show ?thesis by blast
qed

theorem updates_finish_bar_witness:
  "(0::SizeT) < 10 \<and> (0::SizeT) < 3 \<and>
   \<not> is_done (snd (snd (updates 2 (init_globals of_nat, pgbar_new 10 3 False)))) \<and>
   is_done (snd (snd (updates 3 (init_globals of_nat, pgbar_new 10 3 False)))) \<and>
   fst (updates 4 (init_globals of_nat, pgbar_new 10 3 False)) = Some updating_full_bar"
proof -
  have h: "(0::SizeT) < 10" "(0::SizeT) < 3" by simp_all
  have n: "max 1 (unat (10::SizeT) div unat (3::SizeT)) = 3" by simp
  have s: "Suc 3 = 4" by simp
  note t = updates_finish_bar [OF h, of "init_globals of_nat" False, unfolded n s]
  have "(2::nat) < 3" by simp
  with t have "\<not> is_done (snd (snd (updates 2 (init_globals of_nat, pgbar_new 10 3 False))))"
    by blast
  with t h show ?thesis by blast
qed

text \<open>
  C2 as stated fails at total 10 and step 3: the quotient rounded up is 4, but the bar
  is finished after 3 calls and the fourth throws.
\<close>

theorem updates_ceil_counterexample:
  "is_done (snd (snd (updates 3 (init_globals of_nat, pgbar_new 10 3 False)))) \<and>
   fst (updates 4 (init_globals of_nat, pgbar_new 10 3 False)) = Some updating_full_bar \<and>
   (unat (10::SizeT) + unat (3::SizeT) - 1) div unat (3::SizeT) = 4"
proof -
  have T: "(10::SizeT) \<noteq> 0" and S: "(3::SizeT) \<noteq> 0" by simp_all
  have n: "max 1 (unat (10::SizeT) div unat (3::SizeT)) = 3" by simp
  have s: "Suc 3 = 4" by simp
  have a: "is_done (snd (snd (updates 3 (init_globals of_nat, pgbar_new 10 3 False))))"
    using updates_done_iff [OF T S, of 3 "init_globals of_nat" False, unfolded n] by blast
  note b = updates_past_done [OF T S, of "init_globals of_nat" False, unfolded n s]
  have c: "(unat (10::SizeT) + unat (3::SizeT) - 1) div unat (3::SizeT) = 4" by simp
  from a b c show ?thesis by blast
qed

section \<open>Erase prefixes\<close>

lemma generate_barcode_prefix:
  "fst (fst (generate_barcode b g ctrller num_per num_done interval)) =
     (if is_updated b then replicate (unat (total_length b ctrller)) backspace else [])"
  by (simp add: generate_barcode_def Let_def)

lemma total_length_frame [simp]:
  "total_length (b\<lparr>update_flag := u\<rparr>) c = total_length b c"
  "total_length (b\<lparr>stream := st\<rparr>) c = total_length b c"
  by (simp_all add: total_length_def)

lemma render_first_stream:
  "in_tty b \<Longrightarrow>
     \<exists>l. stream (snd (render_first (g, b))) = stream b @ (if is_updated b then [] else [[], l])"
  by (simp add: render_first_def emit_def Let_def generate_barcode_prefix split_beta)

lemma render_progress_stream:
  "in_tty b \<Longrightarrow> is_updated b \<Longrightarrow>
     \<exists>l. stream (snd (render_progress (g, b))) =
         stream b @
         [replicate (unat (total_length b (controller b (last_bar_progress g)))) backspace, l]"
  by (simp add: render_progress_def emit_def Let_def generate_barcode_prefix split_beta now_def)

lemma render_final_stream:
  "in_tty b \<Longrightarrow> is_updated b \<Longrightarrow>
     \<exists>l. stream (snd (render_final (g, b))) =
       stream b @ (if is_done b
                   then [replicate (unat (total_length b (option b))) backspace, l] else [])"
  by (simp add: render_final_def emit_def Let_def generate_barcode_prefix split_beta)

lemma show_rate_globals:
  "snd (show_rate b g i) = g\<lparr>rate_interval := rate_interval (snd (show_rate b g i))\<rparr>"
  by (simp add: show_rate_def Let_def)

lemma generate_barcode_globals:
  "snd (generate_barcode b g c p d i) =
     g\<lparr>rate_interval := rate_interval (snd (generate_barcode b g c p d i))\<rparr>"
proof (cases "bit c bit_rate")
  case True
  then have "snd (generate_barcode b g c p d i) = snd (show_rate b g i)"
    by (simp add: generate_barcode_def Let_def split_beta)
  then show ?thesis using show_rate_globals [of b g i] by simp
next
  case False
  then show ?thesis
    by (simp add: generate_barcode_def Let_def split_beta)
qed

lemma done_flag_generate_barcode [simp]:
  "done_flag (snd (generate_barcode b g c p d i)) = done_flag g"
  by (subst generate_barcode_globals) simp

lemma done_flag_render_first:
  "done_flag (fst (render_first (g, b))) = (is_updated b \<and> done_flag g)"
  by (simp add: render_first_def Let_def split_beta now_def)

lemma last_bar_progress_generate_barcode [simp]:
  "last_bar_progress (snd (generate_barcode b g c p d i)) = last_bar_progress g"
  by (subst generate_barcode_globals) simp

lemma last_bar_progress_render_first:
  "last_bar_progress (fst (render_first (g, b))) =
     (if is_updated b then last_bar_progress g else 0)"
  by (simp add: render_first_def Let_def split_beta now_def)

lemma controller_frame [simp]:
  "controller (b\<lparr>update_flag := u\<rparr>) x = controller b x"
  "controller (b\<lparr>stream := st\<rparr>) x = controller b x"
  by (simp_all add: controller_def bar_gate_def num_percent_def)

text \<open>
  Everything one call of \<^verbatim>\<open>rendering()\<close> writes to a terminal: the first frame of a run
  with an empty erase prefix; unless the run is already marked done, the frame of
  the current progress; and, when the counter has ended, the final frame.
\<close>

lemma rendering_stream:
  "in_tty b \<Longrightarrow>
     \<exists>l1 l2 l3.
       stream (snd (rendering (g, b))) =
         stream b @
         (if is_updated b then [] else [[], l1]) @
         (if is_updated b \<and> done_flag g then []
          else [replicate
                  (unat (total_length b
                     (controller b (if is_updated b then last_bar_progress g else 0))))
                  backspace, l2] @
               (if is_ended (task_cnt b)
                then [replicate (unat (total_length b (option b))) backspace, l3] else []))"
proof -
  assume tty: "in_tty b"
  obtain g1 b1 where r1: "render_first (g, b) = (g1, b1)" by (cases "render_first (g, b)")
  obtain g2 b2 where r2: "render_progress (g1, b1) = (g2, b2)" by (cases "render_progress (g1, b1)")
  obtain g3 b3 where r3: "render_final (g2, b2) = (g3, b3)" by (cases "render_final (g2, b2)")
  obtain s1 where f1: "b1 = b\<lparr>update_flag := True, stream := s1\<rparr>"
    using render_first_frame [of g b] r1 by simp
  obtain s2 where f2: "b2 = b1\<lparr>stream := s2\<rparr>"
    using render_progress_frame [of g1 b1] r2 by simp
  obtain l1 where st1: "stream b1 = stream b @ (if is_updated b then [] else [[], l1])"
    using render_first_stream [OF tty, of g] r1 by auto
  have d1: "done_flag g1 = (is_updated b \<and> done_flag g)"
    using done_flag_render_first [of g b] r1 by simp
  have p1: "last_bar_progress g1 = (if is_updated b then last_bar_progress g else 0)"
    using last_bar_progress_render_first [of g b] r1 by simp
  have tty1: "in_tty b1" "is_updated b1" using tty f1 by (simp_all add: is_updated_def)
  obtain l2 where st2: "stream b2 = stream b1 @
      [replicate (unat (total_length b1 (controller b1 (last_bar_progress g1)))) backspace, l2]"
    using render_progress_stream [OF tty1, of g1] r2 by auto
  have tty2: "in_tty b2" "is_updated b2" using tty1 f2 by (simp_all add: is_updated_def)
  obtain l3 where st3: "stream b3 = stream b2 @
      (if is_done b2 then [replicate (unat (total_length b2 (option b2))) backspace, l3] else [])"
    using render_final_stream [OF tty2, of g2] r3 by auto
  have opt: "option b2 = option b"
    using f1 f2 by simp
  have tl: "total_length b1 (controller b1 x) = total_length b (controller b x)"
    "total_length b2 (option b) = total_length b (option b)" for x
    using f1 f2 by simp_all
  have dn: "is_done b2 = is_ended (task_cnt b)"
    using f1 f2 by (simp add: is_done_def is_updated_def)
  have res: "stream (snd (rendering (g, b))) = (if done_flag g1 then stream b1 else stream b3)"
    by (simp add: rendering_def Let_def r1 r2 r3)
  show ?thesis
    apply (rule exI [of _ l1], rule exI [of _ l2], rule exI [of _ l3])
    by (simp add: res d1 st1 st2 st3 opt tl dn p1)
qed



lemma binary64_hundredths:
  "rnd (1 / 100) = 5764607523034235 / 2 ^ 59"
  "rnd (2 / 100) = 5764607523034235 / 2 ^ 58"
  "rnd (3 / 100) = 8646911284551352 / 2 ^ 58"
  "rnd (rnd (3 / 100) - rnd (2 / 100)) = 2882303761517117 / 2 ^ 58"
  "rnd (rnd (3 / 100) - rnd (2 / 100)) < rnd (1 / 100)"
  "\<not> rnd (rnd (2 / 100) - rnd (1 / 100)) < rnd (1 / 100)"
  by code_simp+




section \<open>Refresh cadence\<close>

text \<open>The gate of \<^verbatim>\<open>singlethread::render()\<close> on an active renderer.\<close>

lemma render_gate:
  "active_flag b \<Longrightarrow>
     render (g, b) =
       (if sint (clock g (ticks g) - last_invoke b) < reflash_rate
        then (g\<lparr>ticks := Suc (ticks g)\<rparr>, b)
        else rendering (g\<lparr>ticks := Suc (ticks g)\<rparr>, b\<lparr>last_invoke := clock g (ticks g)\<rparr>))"
  by (simp add: render_def now_def)

lemma last_invoke_rendering: "last_invoke (snd (rendering (g, b))) = last_invoke b"
  by (subst rendering_frame) simp

text \<open>
  C4.  The code at an active bar whose last render was at time 0, when the clock
  reads 1 000 000 ns, one millisecond later: \<^verbatim>\<open>render()\<close> redraws (it runs
  \<^verbatim>\<open>rendering()\<close>, which writes a frame, and moves \<^verbatim>\<open>last_invoke_\<close> to the new time).
  The interval it compares against is \<^verbatim>\<open>std::chrono::microseconds( 35 )\<close>, that is
  35 000 ns, a thousandth of the 35 ms of the claim; the comment above the constant
  reads "capped at about 25 Hz".
\<close>

theorem render_redraws_after_one_millisecond:
  "reflash_rate = 35000 \<and>
   active_flag ((pgbar_new 100 1 True)\<lparr>update_flag := True, active_flag := True\<rparr>) \<and>
   last_invoke ((pgbar_new 100 1 True)\<lparr>update_flag := True, active_flag := True\<rparr>) = 0 \<and>
   clock ((init_globals of_nat)\<lparr>ticks := 1000000\<rparr>)
     (ticks ((init_globals of_nat)\<lparr>ticks := 1000000\<rparr>)) = 1000000 \<and>
   render ((init_globals of_nat)\<lparr>ticks := 1000000\<rparr>,
           (pgbar_new 100 1 True)\<lparr>update_flag := True, active_flag := True\<rparr>) =
     rendering ((init_globals of_nat)\<lparr>ticks := 1000001\<rparr>,
           (pgbar_new 100 1 True)\<lparr>update_flag := True, active_flag := True,
                                   last_invoke := 1000000\<rparr>) \<and>
   last_invoke (snd (render ((init_globals of_nat)\<lparr>ticks := 1000000\<rparr>,
           (pgbar_new 100 1 True)\<lparr>update_flag := True, active_flag := True\<rparr>))) = 1000000 \<and>
   length (stream (snd (render ((init_globals of_nat)\<lparr>ticks := 1000000\<rparr>,
           (pgbar_new 100 1 True)\<lparr>update_flag := True, active_flag := True\<rparr>)))) = 2"
proof -
  let ?g = "(init_globals of_nat)\<lparr>ticks := 1000000\<rparr>"
  let ?b = "(pgbar_new 100 1 True)\<lparr>update_flag := True, active_flag := True\<rparr>"
  have r: "reflash_rate = 35000" by (simp add: reflash_rate_def reflash_rate_microseconds_def)
  have a: "active_flag ?b" by simp
  have l: "last_invoke ?b = 0" by (simp add: pgbar_new_def pgbar_base_def init_length_def Let_def)
  have c: "clock ?g (ticks ?g) = 1000000" by (simp add: init_globals_def)
  have s: "\<not> sint (clock ?g (ticks ?g) - last_invoke ?b) < reflash_rate"
    unfolding c l r by simp
  have e: "render (?g, ?b) =
     rendering ((init_globals of_nat)\<lparr>ticks := 1000001\<rparr>, ?b\<lparr>last_invoke := 1000000\<rparr>)"
    using render_gate [OF a, of ?g] s unfolding c by simp
  have li: "last_invoke (snd (render (?g, ?b))) = 1000000"
    by (simp only: e last_invoke_rendering) simp
  let ?b' = "?b\<lparr>last_invoke := 1000000\<rparr>"
  let ?g' = "(init_globals of_nat)\<lparr>ticks := 1000001\<rparr>"
  have f: "in_tty ?b'" "is_updated ?b'" "\<not> is_ended (task_cnt ?b')" "stream ?b' = []"
    "\<not> done_flag ?g'"
    by (simp_all add: pgbar_new_fields is_updated_def is_ended_def init_globals_def)
  obtain l1 l2 l3 where "stream (snd (rendering (?g', ?b'))) =
         stream ?b' @
         (if is_updated ?b' then [] else [[], l1]) @
         (if is_updated ?b' \<and> done_flag ?g' then []
          else [replicate
                  (unat (total_length ?b'
                     (controller ?b' (if is_updated ?b' then last_bar_progress ?g' else 0))))
                  backspace, l2] @
               (if is_ended (task_cnt ?b')
                then [replicate (unat (total_length ?b' (option ?b'))) backspace, l3] else []))"
    using rendering_stream [OF f(1), of ?g'] by blast
  then have "length (stream (snd (rendering (?g', ?b')))) = 2"
    by (simp only: f if_True if_False simp_thms append_Nil append_Nil2 list.size)
  then have st: "length (stream (snd (render (?g, ?b)))) = 2"
    by (simp only: e)
  from r a l c e li st show ?thesis by simp
qed

section \<open>The rate formatter\<close>

lemma rate_text_saturated:
  assumes "999.99 < real (unat f) / 1000000000"
  shows "rate_text f = ''> 1.00 GHz''"
proof -
  from assms have "999990000000 < real (unat f)" by simp
  then have "\<not> real (unat f) < 1000" "\<not> real (unat f) < 1000000"
    "\<not> real (unat f) < 1000000000" by simp_all
  with assms show ?thesis by (simp add: rate_text_def Let_def)
qed

lemma formatter_saturated:
  "formatter align_center rate_len ''> 1.00 GHz'' = ''> 1.00 GHz''"
  by (simp add: formatter_def rate_len_def str_size_def)

lemma rate_frequency_zero: "rate_frequency 0 = - 1 \<and> unat (rate_frequency 0) = 2 ^ 64 - 1"
  by (simp add: rate_frequency_def unsigned_minus_1_eq_mask mask_eq_exp_minus_1)

lemma rate_frequency_nonzero:
  "avg \<noteq> 0 \<Longrightarrow> unat (rate_frequency avg) = 1000000000 div unat avg"
  by (simp add: rate_frequency_def unat_div)

lemma rate_text_max: "rate_text (- 1) = ''> 1.00 GHz''"
  by (rule rate_text_saturated) (simp add: unsigned_minus_1_eq_mask mask_eq_exp_minus_1)

text \<open>
  C9.  Once the bar has started, \<^verbatim>\<open>show_rate\<close> returns a text for every interval: the
  division by the averaged interval is made only when the average is not zero.  When
  the average is zero the frequency is \<^verbatim>\<open>~SizeT(0)\<close>, the largest \<^verbatim>\<open>SizeT\<close>, and the text
  is \<^verbatim>\<open>"> 1.00 GHz"\<close>; any frequency whose value in GHz exceeds 999.99 gives exactly
  that text, which the centring to width 10 leaves as it is.
\<close>

theorem show_rate_saturates:
  "is_updated b \<Longrightarrow>
     ((rate_interval g + interval) div 2 = 0 \<longrightarrow>
        rate_frequency ((rate_interval g + interval) div 2) = - 1 \<and>
        unat (rate_frequency ((rate_interval g + interval) div 2)) = 2 ^ 64 - 1 \<and>
        fst (show_rate b g interval) = ''> 1.00 GHz'') \<and>
     ((rate_interval g + interval) div 2 \<noteq> 0 \<longrightarrow>
        unat (rate_frequency ((rate_interval g + interval) div 2)) =
          1000000000 div unat ((rate_interval g + interval) div 2)) \<and>
     fst (show_rate b g interval) =
       formatter align_center rate_len
         (rate_text (rate_frequency ((rate_interval g + interval) div 2))) \<and>
     (999.99 < real (unat f) / 1000000000 \<longrightarrow>
        rate_text f = ''> 1.00 GHz'' \<and>
        formatter align_center rate_len (rate_text f) = ''> 1.00 GHz'')"
proof -
  assume u: "is_updated b"
  let ?avg = "(rate_interval g + interval) div 2"
  have s: "fst (show_rate b g interval) =
       formatter align_center rate_len (rate_text (rate_frequency ?avg))"
    using u by (simp add: show_rate_def Let_def)
  have z: "?avg = 0 \<longrightarrow> fst (show_rate b g interval) = ''> 1.00 GHz''"
    using s rate_frequency_zero rate_text_max formatter_saturated by simp
  have f: "999.99 < real (unat f) / 1000000000 \<longrightarrow>
        rate_text f = ''> 1.00 GHz'' \<and>
        formatter align_center rate_len (rate_text f) = ''> 1.00 GHz''"
    using rate_text_saturated [of f] formatter_saturated by simp
  have n: "?avg \<noteq> 0 \<longrightarrow> unat (rate_frequency ?avg) = 1000000000 div unat ?avg"
    using rate_frequency_nonzero [of ?avg] by blast
  have z0: "?avg = 0 \<longrightarrow> rate_frequency ?avg = - 1 \<and> unat (rate_frequency ?avg) = 2 ^ 64 - 1"
    using rate_frequency_zero by (auto simp only:)
  from s z z0 n f show ?thesis by blast
qed

theorem show_rate_saturates_witness:
  "is_updated ((pgbar_new 2 1 True)\<lparr>update_flag := True\<rparr>) \<and>
   (rate_interval (init_globals of_nat) + 0) div 2 = 0 \<and>
   fst (show_rate ((pgbar_new 2 1 True)\<lparr>update_flag := True\<rparr>) (init_globals of_nat) 0) =
     ''> 1.00 GHz'' \<and>
   (rate_interval (init_globals of_nat) + 5) div 2 \<noteq> 0 \<and>
   unat (rate_frequency ((rate_interval (init_globals of_nat) + 5) div 2)) = 500000000 \<and>
   999.99 < real (unat (1000000000000 :: SizeT)) / 1000000000 \<and>
   rate_text 1000000000000 = ''> 1.00 GHz''"
  using show_rate_saturates [of "(pgbar_new 2 1 True)\<lparr>update_flag := True\<rparr>"
          "init_globals of_nat" 0 1000000000000]
        show_rate_saturates [of "(pgbar_new 2 1 True)\<lparr>update_flag := True\<rparr>"
          "init_globals of_nat" 5 1000000000000]
  by (simp add: is_updated_def init_globals_def)

section \<open>Configuration after the start\<close>

lemma init_length_False_frame:
  "init_length b False = b\<lparr>status_length := status_length (init_length b False)\<rparr>"
  by (simp add: init_length_def Let_def)

lemma status_length_init_cong:
  "option b' = option b \<Longrightarrow> cnt_length b' = cnt_length b \<Longrightarrow>
   lstatus b' = lstatus b \<Longrightarrow> rstatus b' = rstatus b \<Longrightarrow>
   status_length (init_length b' False) = status_length (init_length b False)"
  by (simp add: init_length_def Let_def)

text \<open>\<^verbatim>\<open>status_length_\<close> is up to date when \<^verbatim>\<open>init_length( *this, false )\<close> changes nothing.\<close>

lemma status_ok_cong:
  assumes "option b' = option b" "cnt_length b' = cnt_length b"
    "lstatus b' = lstatus b" "rstatus b' = rstatus b" "status_length b' = status_length b"
    and ok: "init_length b False = b"
  shows "init_length b' False = b'"
proof -
  have "status_length (init_length b' False) = status_length (init_length b False)"
    using assms(1-4) by (rule status_length_init_cong)
  also have "\<dots> = status_length b'" using ok assms(5) by simp
  finally have "status_length (init_length b' False) = status_length b'" .
  then show ?thesis by (subst init_length_False_frame) simp
qed

lemma init_length_ok: "init_length (init_length b u) False = init_length b u"
proof -
  have "status_length (init_length (init_length b u) False) = status_length (init_length b u)"
    by (simp add: init_length_def Let_def)
  then show ?thesis by (subst init_length_False_frame) simp
qed

lemma same_config_fields:
  assumes "same_config b b'"
  shows "option b' = option b" "cnt_length b' = cnt_length b" "lstatus b' = lstatus b"
    "rstatus b' = rstatus b" "status_length b' = status_length b"
proof -
  obtain u a l st c where "b' = b\<lparr>update_flag := u, active_flag := a,
            last_invoke := l, stream := st, task_cnt := c\<rparr>"
    using assms unfolding same_config_def by blast
  then show "option b' = option b" "cnt_length b' = cnt_length b" "lstatus b' = lstatus b"
    "rstatus b' = rstatus b" "status_length b' = status_length b"
    by simp_all
qed

lemma status_ok_same_config:
  assumes "same_config b b'" and "init_length b False = b"
  shows "init_length b' False = b'"
  using same_config_fields [OF assms(1)] assms(2) by (rule status_ok_cong)

lemma same_config_do_update:
  "same_config b (snd (snd (do_update f (g, b))))"
proof (cases "is_done b \<or> num_tasks (task_cnt b) = 0")
  case True
  then have "snd (do_update f (g, b)) = (g, b)"
    using do_update_error_iff [of f g b] do_update_error_state [of f g b] by simp
  then show ?thesis by (simp add: same_config_refl)
next
  case False
  then show ?thesis using do_update_ok [of b f g] by simp
qed

lemma status_ok_setters:
  assumes ok: "init_length b False = b"
  shows "init_length (snd (set_step s b)) False = snd (set_step s b)"
    "init_length (snd (set_task t b)) False = snd (set_task t b)"
    "init_length (set_done x b) False = set_done x b"
    "init_length (set_todo x b) False = set_todo x b"
    "init_length (set_startpoint x b) False = set_startpoint x b"
    "init_length (set_endpoint x b) False = set_endpoint x b"
    "init_length (set_lstatus x b) False = set_lstatus x b"
    "init_length (set_rstatus x b) False = set_rstatus x b"
    "init_length (set_bar_length n b) False = set_bar_length n b"
    "init_length (set_todo_col x b) False = set_todo_col x b"
    "init_length (set_done_col x b) False = set_done_col x b"
    "init_length (set_status_col x b) False = set_status_col x b"
    "init_length (set_style w b) False = set_style w b"
    "init_length (set_style_bundle sty b) False = set_style_bundle sty b"
proof -
  show "init_length (snd (set_step s b)) False = snd (set_step s b)"
    unfolding set_step_def using ok
    by (auto intro: status_ok_cong [where b = b])
  show "init_length (snd (set_task t b)) False = snd (set_task t b)"
    unfolding set_task_def using ok by (simp add: init_length_ok)
  show "init_length (set_done x b) False = set_done x b"
    unfolding set_done_def using ok by (auto intro: status_ok_cong [where b = b])
  show "init_length (set_todo x b) False = set_todo x b"
    unfolding set_todo_def using ok by (auto intro: status_ok_cong [where b = b])
  show "init_length (set_startpoint x b) False = set_startpoint x b"
    unfolding set_startpoint_def using ok by (auto intro: status_ok_cong [where b = b])
  show "init_length (set_endpoint x b) False = set_endpoint x b"
    unfolding set_endpoint_def using ok by (auto intro: status_ok_cong [where b = b])
  show "init_length (set_lstatus x b) False = set_lstatus x b"
    unfolding set_lstatus_def by (rule init_length_ok)
  show "init_length (set_rstatus x b) False = set_rstatus x b"
    unfolding set_rstatus_def by (rule init_length_ok)
  show "init_length (set_bar_length n b) False = set_bar_length n b"
    unfolding set_bar_length_def using ok by (auto intro: status_ok_cong [where b = b])
  show "init_length (set_todo_col x b) False = set_todo_col x b"
    unfolding set_todo_col_def using ok by (auto intro: status_ok_cong [where b = b])
  show "init_length (set_done_col x b) False = set_done_col x b"
    unfolding set_done_col_def using ok by (auto intro: status_ok_cong [where b = b])
  show "init_length (set_status_col x b) False = set_status_col x b"
    unfolding set_status_col_def using ok by (auto intro: status_ok_cong [where b = b])
  show "init_length (set_style w b) False = set_style w b"
    unfolding set_style_def by (rule init_length_ok)
  show "init_length (set_style_bundle sty b) False = set_style_bundle sty b"
    unfolding set_style_bundle_def apply_style_def using ok
    by (simp add: init_length_ok Let_def)
qed

lemma same_config_reset: "same_config b (snd (reset (g, b)))"
proof (cases "is_updated b")
  case True
  then show ?thesis using reset_effect [of b g] by simp
next
  case False
  then show ?thesis by (simp add: reset_def same_config_refl)
qed

lemma status_ok_copy:
  assumes ok: "init_length lhs False = lhs"
  shows "init_length (pod_copy (npod_copy b lhs) lhs) False = pod_copy (npod_copy b lhs) lhs"
  by (rule status_ok_cong [OF _ _ _ _ _ ok]) (simp_all add: pod_copy_def npod_copy_def)

lemma status_ok_exec:
  assumes ok: "init_length b False = b"
  shows "init_length (snd (snd (exec c (g, b)))) False = snd (snd (exec c (g, b)))"
proof (cases c)
  case Update
  then show ?thesis
    using status_ok_same_config [OF same_config_do_update [of b incr g] ok]
    by (simp add: update_def)
next
  case (UpdateBy n)
  then show ?thesis
    using status_ok_same_config [OF same_config_do_update [of b "\<lambda>c. add_assign c n" g] ok]
    by (simp add: update_by_def)
next
  case Reset
  then show ?thesis
    using status_ok_same_config [OF same_config_reset [of b g] ok] by simp
qed (simp_all add: status_ok_setters [OF ok])

lemma reachable_status_ok: "reachable b \<Longrightarrow> init_length b False = b"
proof (induction rule: reachable.induct)
  case (reachable_new total_tsk each_step tty)
  show ?case unfolding pgbar_new_def by (rule init_length_ok)
next
  case (reachable_of_style initializer tty)
  show ?case unfolding pgbar_of_style_def apply_style_def Let_def by (rule init_length_ok)
next
  case (reachable_copy lhs tty)
  then show ?case unfolding pgbar_copy_def by (simp add: status_ok_copy)
next
  case (reachable_exec b c g)
  then show ?case by (simp add: status_ok_exec)
next
  case (reachable_copy_assign b lhs)
  then show ?case by (simp add: copy_assign_def status_ok_copy)
next
  case (reachable_move_assign b rhs)
  then show ?case by (simp add: move_assign_def status_ok_copy)
qed

lemma setters_started:
  assumes ok: "init_length b False = b" and u: "is_updated b"
  shows "set_task t b = (None, b)" "set_step s b = (None, b)"
    "set_done x b = b" "set_todo x b = b" "set_startpoint x b = b" "set_endpoint x b = b"
    "set_lstatus x b = b" "set_rstatus x b = b" "set_bar_length n b = b"
    "set_todo_col x b = b" "set_done_col x b = b" "set_status_col x b = b"
    "set_style w b = b" "set_style_bundle sty b = b"
  using ok u
  by (simp_all add: set_task_def set_step_def set_done_def set_todo_def set_startpoint_def
        set_endpoint_def set_lstatus_def set_rstatus_def set_bar_length_def set_todo_col_def
        set_done_col_def set_status_col_def set_style_def set_style_bundle_def)

lemma exec_setter_started:
  assumes ok: "init_length b False = b" and u: "is_updated b"
    and c: "c \<noteq> Update" "\<forall>n. c \<noteq> UpdateBy n" "c \<noteq> Reset"
  shows "exec c (g, b) = (None, g, b)"
  using c by (cases c) (simp_all add: setters_started [OF ok u])

lemma reset_changes_started: "is_updated b \<Longrightarrow> snd (reset (g, b)) \<noteq> b"
  using reset_effect [of b g] by (auto simp: is_updated_def)

text \<open>
  C8.  On an object built by a public constructor and any calls (copies and move
  targets included), once \<^verbatim>\<open>update_flag_\<close> is true: \<^verbatim>\<open>set_task\<close>, \<^verbatim>\<open>set_step\<close>, \<^verbatim>\<open>set_done\<close>,
  \<^verbatim>\<open>set_todo\<close>, \<^verbatim>\<open>set_startpoint\<close>, \<^verbatim>\<open>set_endpoint\<close>, \<^verbatim>\<open>set_lstatus\<close>, \<^verbatim>\<open>set_rstatus\<close>,
  \<^verbatim>\<open>set_bar_length\<close>, the three colour setters and both overloads of \<^verbatim>\<open>set_style\<close> return
  without an exception and leave the object, and with it the globals, exactly as
  they were; \<^verbatim>\<open>reset()\<close> does change the object.  \<^verbatim>\<open>set_lstatus\<close>, \<^verbatim>\<open>set_rstatus\<close> and
  \<^verbatim>\<open>set_style( style::Type )\<close> run \<^verbatim>\<open>init_length( *this, false )\<close> even then, which
  recomputes \<^verbatim>\<open>status_length_\<close> to the value it already has.
\<close>

theorem setters_keep_started_bar:
  "reachable b \<Longrightarrow> is_updated b \<Longrightarrow>
     set_task t b = (None, b) \<and> set_step s b = (None, b) \<and>
     set_done x b = b \<and> set_todo x b = b \<and>
     set_startpoint x b = b \<and> set_endpoint x b = b \<and>
     set_lstatus x b = b \<and> set_rstatus x b = b \<and>
     set_bar_length n b = b \<and>
     set_todo_col x b = b \<and> set_done_col x b = b \<and> set_status_col x b = b \<and>
     set_style w b = b \<and> set_style_bundle sty b = b \<and>
     (c \<noteq> Update \<and> (\<forall>n. c \<noteq> UpdateBy n) \<and> c \<noteq> Reset \<longrightarrow> exec c (g, b) = (None, g, b)) \<and>
     snd (reset (g, b)) \<noteq> b"
proof -
  assume r: "reachable b" and u: "is_updated b"
  have ok: "init_length b False = b" using r by (rule reachable_status_ok)
  from setters_started [OF ok u] exec_setter_started [OF ok u, of c g]
    reset_changes_started [OF u, of g]
  show ?thesis by simp
qed

theorem setters_keep_started_bar_witness:
  "reachable (snd (snd (update (init_globals of_nat, pgbar_new 2 1 False)))) \<and>
   is_updated (snd (snd (update (init_globals of_nat, pgbar_new 2 1 False)))) \<and>
   set_lstatus ''('' (snd (snd (update (init_globals of_nat, pgbar_new 2 1 False)))) =
     snd (snd (update (init_globals of_nat, pgbar_new 2 1 False))) \<and>
   set_task 5 (snd (snd (update (init_globals of_nat, pgbar_new 2 1 False)))) =
     (None, snd (snd (update (init_globals of_nat, pgbar_new 2 1 False)))) \<and>
   exec (SetStyle 0) (init_globals of_nat,
                      snd (snd (update (init_globals of_nat, pgbar_new 2 1 False)))) =
     (None, init_globals of_nat, snd (snd (update (init_globals of_nat, pgbar_new 2 1 False))))"
proof -
  let ?b = "snd (snd (update (init_globals of_nat, pgbar_new 2 1 False)))"
  have r: "reachable ?b"
    using reachable_exec [OF reachable_new, of Update "init_globals of_nat" 2 1 False] by simp
  have u: "is_updated ?b"
    using do_update_ok [of "pgbar_new 2 1 False" incr "init_globals of_nat"]
    by (simp add: update_def is_done_def is_updated_def pgbar_new_fields)
  from setters_keep_started_bar [OF r u, of 5 _ "''(''" _ _ _ "SetStyle 0" "init_globals of_nat"] r u
  show ?thesis by simp
qed

section \<open>Objects and the shared render state\<close>

lemma show_rate_agree:
  "(is_updated b \<longrightarrow> rate_interval g = rate_interval g') \<Longrightarrow>
     fst (show_rate b g i) = fst (show_rate b g' i) \<and>
     rate_interval (snd (show_rate b g i)) = rate_interval (snd (show_rate b g' i))"
  by (simp add: show_rate_def Let_def)

lemma generate_barcode_agree:
  assumes "bit c bit_rate \<longrightarrow> is_updated b \<longrightarrow> rate_interval g = rate_interval g'"
  shows "fst (generate_barcode b g c p d i) = fst (generate_barcode b g' c p d i) \<and>
     (bit c bit_rate \<longrightarrow>
        rate_interval (snd (generate_barcode b g c p d i)) =
        rate_interval (snd (generate_barcode b g' c p d i)))"
proof (cases "bit c bit_rate")
  case True
  with assms have "is_updated b \<longrightarrow> rate_interval g = rate_interval g'" by simp
  from show_rate_agree [OF this, of i] True show ?thesis
    by (simp add: generate_barcode_def Let_def split_beta)
next
  case False
  then show ?thesis by (simp add: generate_barcode_def Let_def split_beta)
qed

lemma bit_rate_controller [simp]:
  "bit (controller b x) bit_rate = bit (option b) bit_rate"
  by (simp add: controller_def bit_unset_bit_iff bit_rate_def bit_bar_def)

lemma agree_rate_interval:
  "agree b g g' \<Longrightarrow> (is_updated b \<Longrightarrow> in_tty b \<Longrightarrow> bit (option b) bit_rate \<Longrightarrow> r = r') \<Longrightarrow>
     agree b (g\<lparr>rate_interval := r\<rparr>) (g'\<lparr>rate_interval := r'\<rparr>)"
  by (auto simp: agree_def)

lemma agree_generate_barcode:
  assumes a: "agree b g g'" and c: "bit c bit_rate = bit (option b) bit_rate"
    and t: "in_tty b"
  shows "fst (generate_barcode b g c p d i) = fst (generate_barcode b g' c p d i) \<and>
         agree b (snd (generate_barcode b g c p d i)) (snd (generate_barcode b g' c p d i))"
proof -
  have pre: "bit c bit_rate \<longrightarrow> is_updated b \<longrightarrow> rate_interval g = rate_interval g'"
    using a c t by (simp add: agree_def)
  note ga = generate_barcode_agree [OF pre, of p d i]
  have "agree b (g\<lparr>rate_interval := rate_interval (snd (generate_barcode b g c p d i))\<rparr>)
                (g'\<lparr>rate_interval := rate_interval (snd (generate_barcode b g' c p d i))\<rparr>)"
    using ga c by (intro agree_rate_interval [OF a]) simp
  then show ?thesis
    using ga generate_barcode_globals [of b g c p d i] generate_barcode_globals [of b g' c p d i]
    by simp
qed

lemma render_progress_agree:
  assumes u: "is_updated b" and a: "agree b g g'"
  shows "snd (render_progress (g, b)) = snd (render_progress (g', b)) \<and>
         agree b (fst (render_progress (g, b))) (fst (render_progress (g', b)))"
proof (cases "in_tty b")
  case False
  with a show ?thesis by (simp add: render_progress_def)
next
  case True
  define G3 where "G3 = (\<lambda>g::globals.
     (let g1 = g\<lparr>ticks := Suc (ticks g)\<rparr>;
          interval = (if current (task_cnt b) \<noteq> 0
                       then (clock g (ticks g) - first_invoked g1) div current (task_cnt b)
                       else (clock g (ticks g) - first_invoked g1) div 1);
          g2 = g1\<lparr>invoke_interval := interval\<rparr>
      in (if bar_gate b (last_bar_progress g2) then g2
          else g2\<lparr>last_bar_progress := num_percent b\<rparr>)))"
  have unf: "render_progress (h, b) =
     (snd (generate_barcode b (G3 h) (controller b (last_bar_progress h))
             (num_percent b) (current (task_cnt b)) (invoke_interval (G3 h))),
      emit b (fst (generate_barcode b (G3 h) (controller b (last_bar_progress h))
             (num_percent b) (current (task_cnt b)) (invoke_interval (G3 h)))))" for h
    using True by (simp add: render_progress_def now_def G3_def Let_def split_beta)
  have a3: "agree b (G3 g) (G3 g')"
    using a u True by (simp add: agree_def G3_def Let_def)
  have ii: "invoke_interval (G3 g) = invoke_interval (G3 g')"
    using a3 u True by (simp add: agree_def)
  have lb: "last_bar_progress g = last_bar_progress g'"
    using a u by (simp add: agree_def)
  from agree_generate_barcode [OF a3 _ True, of "controller b (last_bar_progress g)"
      "num_percent b" "current (task_cnt b)" "invoke_interval (G3 g)"]
  show ?thesis
    by (simp add: unf ii [symmetric] lb [symmetric])
qed

lemma render_final_agree:
  assumes u: "is_updated b" and a: "agree b g g'"
  shows "snd (render_final (g, b)) = snd (render_final (g', b)) \<and>
         agree b (fst (render_final (g, b))) (fst (render_final (g', b)))"
proof (cases "is_done b")
  case False
  with a show ?thesis by (simp add: render_final_def)
next
  case d: True
  have df: "agree b x y \<Longrightarrow> agree b (x\<lparr>done_flag := True\<rparr>) (y\<lparr>done_flag := True\<rparr>)" for x y
    by (simp add: agree_def)
  show ?thesis
  proof (cases "in_tty b")
    case False
    with d a df show ?thesis by (simp add: render_final_def Let_def)
  next
    case True
    have ii: "invoke_interval g = invoke_interval g'"
      using a u True by (simp add: agree_def)
    from agree_generate_barcode [OF a _ True, of "option b" 1
        "current (counter_end (task_cnt b))" "invoke_interval g"] df
    show ?thesis
      using d True by (simp add: render_final_def Let_def split_beta ii [symmetric])
  qed
qed

lemma render_first_agree:
  assumes a: "agree b g g'"
  shows "snd (render_first (g, b)) = snd (render_first (g', b)) \<and>
         agree (b\<lparr>update_flag := True\<rparr>) (fst (render_first (g, b))) (fst (render_first (g', b)))"
proof (cases "is_updated b")
  case True
  then have "b\<lparr>update_flag := True\<rparr> = b" by (simp add: is_updated_def)
  with True a show ?thesis by (simp add: render_first_def)
next
  case nu: False
  show ?thesis
  proof (cases "in_tty b")
    case False
    with nu a show ?thesis
      by (simp add: render_first_def Let_def agree_def is_updated_def)
  next
    case True
    define G2 where "G2 = (\<lambda>g::globals.
        g\<lparr>done_flag := False, last_bar_progress := 0, invoke_interval := 0,
          ticks := Suc (ticks g), first_invoked := clock g (ticks g)\<rparr>)"
    have unf: "render_first (h, b) =
       (snd (generate_barcode b (G2 h) (option b) 0 0 0),
        (emit b (fst (generate_barcode b (G2 h) (option b) 0 0 0)))\<lparr>update_flag := True\<rparr>)" for h
      using nu True by (simp add: render_first_def now_def G2_def Let_def split_beta)
    have pre: "bit (option b) bit_rate \<longrightarrow> is_updated b \<longrightarrow>
                 rate_interval (G2 g) = rate_interval (G2 g')"
      using nu by simp
    note ga = generate_barcode_agree [OF pre, of 0 0 0]
    obtain r where g: "snd (generate_barcode b (G2 g) (option b) 0 0 0) = (G2 g)\<lparr>rate_interval := r\<rparr>"
      using generate_barcode_globals [of b "G2 g" "option b" 0 0 0] by blast
    obtain r' where g': "snd (generate_barcode b (G2 g') (option b) 0 0 0) = (G2 g')\<lparr>rate_interval := r'\<rparr>"
      using generate_barcode_globals [of b "G2 g'" "option b" 0 0 0] by blast
    have rr: "bit (option b) bit_rate \<longrightarrow> r = r'"
      using ga g g' by simp
    have "agree (b\<lparr>update_flag := True\<rparr>) ((G2 g)\<lparr>rate_interval := r\<rparr>) ((G2 g')\<lparr>rate_interval := r'\<rparr>)"
      using a rr by (simp add: agree_def G2_def)
    with ga show ?thesis by (simp add: unf g g')
  qed
qed

lemma agree_frame [simp]:
  "agree (b\<lparr>stream := st\<rparr>) = agree b"
  "agree (b\<lparr>last_invoke := l\<rparr>) = agree b"
  "agree (b\<lparr>active_flag := f\<rparr>) = agree b"
  "agree (b\<lparr>task_cnt := c\<rparr>) = agree b"
  by (simp_all add: agree_def is_updated_def fun_eq_iff)

lemma rendering_agree:
  assumes a: "agree b g g'"
  shows "snd (rendering (g, b)) = snd (rendering (g', b)) \<and>
         agree (snd (rendering (g, b))) (fst (rendering (g, b))) (fst (rendering (g', b)))"
proof -
  obtain g1 b1 where r1: "render_first (g, b) = (g1, b1)" by (cases "render_first (g, b)")
  obtain g1' b1' where r1': "render_first (g', b) = (g1', b1')" by (cases "render_first (g', b)")
  obtain s1 where f1: "b1 = b\<lparr>update_flag := True, stream := s1\<rparr>"
    using render_first_frame [of g b] r1 by simp
  have e1: "b1' = b1"
    using render_first_agree [OF a] r1 r1' by simp
  have "agree (b\<lparr>update_flag := True\<rparr>) g1 g1'"
    using render_first_agree [OF a] r1 r1' by simp
  then have a1: "agree b1 g1 g1'"
    unfolding f1 by simp
  have u1: "is_updated b1" using f1 by (simp add: is_updated_def)
  have d1: "done_flag g1 = done_flag g1'" using a1 u1 by (simp add: agree_def)
  obtain g2 b2 where r2: "render_progress (g1, b1) = (g2, b2)" by (cases "render_progress (g1, b1)")
  obtain g2' b2' where r2': "render_progress (g1', b1) = (g2', b2')" by (cases "render_progress (g1', b1)")
  obtain s2 where f2: "b2 = b1\<lparr>stream := s2\<rparr>"
    using render_progress_frame [of g1 b1] r2 by simp
  have e2: "b2' = b2"
    using render_progress_agree [OF u1 a1] r2 r2' by simp
  have "agree b1 g2 g2'"
    using render_progress_agree [OF u1 a1] r2 r2' by simp
  then have a2: "agree b2 g2 g2'"
    by (subst f2) simp
  have u2: "is_updated b2" using f2 u1 by (simp add: is_updated_def)
  obtain g3 b3 where r3: "render_final (g2, b2) = (g3, b3)" by (cases "render_final (g2, b2)")
  obtain s3 where f3: "b3 = b2\<lparr>stream := s3\<rparr>"
    using render_final_frame [of g2 b2] r3 by simp
  have e3: "snd (render_final (g2', b2)) = b3"
    using render_final_agree [OF u2 a2] r3 by simp
  have "agree b2 g3 (fst (render_final (g2', b2)))"
    using render_final_agree [OF u2 a2] r3 by simp
  then have a3: "agree b3 g3 (fst (render_final (g2', b2)))"
    by (subst f3) simp
  show ?thesis
    using a1 e3 a3 d1
    by (simp add: rendering_def Let_def r1 r1' e1 r2 r2' e2 r3)
qed

lemma relatedI: "agree b g g' \<Longrightarrow> related (g, b) (g', b)"
  by (simp add: related_def)

lemma relatedE:
  assumes "related x y"
  obtains g g' b where "x = (g, b)" "y = (g', b)" "agree b g g'"
  using assms by (cases x, cases y) (simp add: related_def)

lemma related_rendering:
  assumes "related x y"
  shows "related (rendering x) (rendering y)"
proof -
  from assms obtain g g' b where x: "x = (g, b)" and y: "y = (g', b)" and a: "agree b g g'"
    by (rule relatedE)
  from rendering_agree [OF a] show ?thesis
    unfolding related_def x y by blast
qed

lemma related_now:
  assumes "agree b g g'"
  obtains t g1 g1' where "now g = (t, g1)" "now g' = (t, g1')" "agree b g1 g1'"
  using assms by (simp add: agree_def now_def)

lemma related_active: "related x y \<Longrightarrow> related (active x) (active y)"
proof (erule relatedE)
  fix g g' b assume x: "x = (g, b)" and y: "y = (g', b)" and a: "agree b g g'"
  show ?thesis
  proof (cases "active_flag b")
    case True
    with a show ?thesis by (simp add: x y active_def related_def)
  next
    case False
    from a obtain t g1 g1' where n: "now g = (t, g1)" "now g' = (t, g1')" and a1: "agree b g1 g1'"
      by (rule related_now)
    have "related (rendering (g1, b\<lparr>last_invoke := t\<rparr>)) (rendering (g1', b\<lparr>last_invoke := t\<rparr>))"
      using a1 by (intro related_rendering relatedI) simp
    then show ?thesis
      using False by (auto simp: x y active_def n related_def split_beta)
  qed
qed

lemma related_suspend: "related x y \<Longrightarrow> related (suspend x) (suspend y)"
proof (erule relatedE)
  fix g g' b assume x: "x = (g, b)" and y: "y = (g', b)" and a: "agree b g g'"
  have "related (rendering (g, b)) (rendering (g', b))"
    using a by (intro related_rendering relatedI)
  with a show ?thesis
    by (auto simp: x y suspend_def related_def split_beta)
qed

lemma related_render: "related x y \<Longrightarrow> related (render x) (render y)"
proof (erule relatedE)
  fix g g' b assume x: "x = (g, b)" and y: "y = (g', b)" and a: "agree b g g'"
  from a obtain t g1 g1' where n: "now g = (t, g1)" "now g' = (t, g1')" and a1: "agree b g1 g1'"
    by (rule related_now)
  have "related (rendering (g1, b\<lparr>last_invoke := t\<rparr>)) (rendering (g1', b\<lparr>last_invoke := t\<rparr>))"
    using a1 by (intro related_rendering relatedI) simp
  with a a1 show ?thesis
    by (auto simp: x y render_def n related_def)
qed

lemma related_task_cnt:
  "related x y \<Longrightarrow>
     related (fst x, (snd x)\<lparr>task_cnt := f (task_cnt (snd x))\<rparr>)
             (fst y, (snd y)\<lparr>task_cnt := f (task_cnt (snd y))\<rparr>)"
  by (auto simp: related_def)

lemma related_do_update:
  assumes r: "related x y"
  shows "fst (do_update f x) = fst (do_update f y) \<and>
         related (snd (do_update f x)) (snd (do_update f y))"
proof -
  from r obtain g g' b where x: "x = (g, b)" and y: "y = (g', b)" and a: "agree b g g'"
    by (rule relatedE)
  show ?thesis
  proof (cases "is_done b \<or> num_tasks (task_cnt b) = 0")
    case True
    with r show ?thesis by (auto simp: x y do_update_def counter_end_def)
  next
    case False
    define s1 where "s1 = (\<lambda>z::globals \<times> pgbar. if \<not> is_updated b then active z else z)"
    define s2 where "s2 = (\<lambda>z::globals \<times> pgbar.
        render (fst (s1 z), (snd (s1 z))\<lparr>task_cnt := f (task_cnt (snd (s1 z)))\<rparr>))"
    define s3 where "s3 = (\<lambda>z::globals \<times> pgbar.
        if is_ended (task_cnt (snd (s2 z))) then suspend (s2 z) else s2 z)"
    have unf: "do_update f (h, b) = (None, s3 (h, b))" for h
      using False
      by (simp add: do_update_def counter_end_def s1_def s2_def s3_def split_beta)
    have r1: "related (s1 x) (s1 y)"
      using r related_active [OF r] by (simp add: s1_def)
    have r2: "related (s2 x) (s2 y)"
      unfolding s2_def by (intro related_render related_task_cnt r1)
    then have e2: "snd (s2 x) = snd (s2 y)" by (simp add: related_def)
    have r3: "related (s3 x) (s3 y)"
      using r2 related_suspend [OF r2] by (simp add: s3_def e2)
    then show ?thesis by (simp add: x y unf)
  qed
qed

lemma related_reset: "related x y \<Longrightarrow> related (reset x) (reset y)"
proof (erule relatedE)
  fix g g' b assume x: "x = (g, b)" and y: "y = (g', b)" and a: "agree b g g'"
  show ?thesis
  proof (cases "is_updated b")
    case False
    with a show ?thesis by (simp add: x y reset_def related_def)
  next
    case True
    let ?b = "b\<lparr>task_cnt := assign_value (task_cnt b) 0\<rparr>"
    have "related (suspend (g, ?b)) (suspend (g', ?b))"
      using a by (intro related_suspend relatedI) simp
    then have "related (fst (suspend (g, ?b)), (snd (suspend (g, ?b)))\<lparr>update_flag := False\<rparr>)
                       (fst (suspend (g', ?b)), (snd (suspend (g', ?b)))\<lparr>update_flag := False\<rparr>)"
      by (auto simp: related_def agree_def is_updated_def)
    with True show ?thesis by (simp add: x y reset_def split_beta)
  qed
qed

lemma init_length_fields [simp]:
  "update_flag (init_length b u) = update_flag b"
  "in_tty (init_length b u) = in_tty b"
  "option (init_length b u) = option b"
  by (simp_all add: init_length_def Let_def)

lemma agree_cong:
  "is_updated b' = is_updated b \<Longrightarrow> in_tty b' = in_tty b \<Longrightarrow>
   (is_updated b \<Longrightarrow> option b' = option b) \<Longrightarrow> agree b' g g' = agree b g g'"
  by (auto simp: agree_def)

lemma agree_setters:
  "agree (snd (set_step s b)) g g' = agree b g g'"
  "agree (snd (set_task t b)) g g' = agree b g g'"
  "agree (set_done x b) g g' = agree b g g'"
  "agree (set_todo x b) g g' = agree b g g'"
  "agree (set_startpoint x b) g g' = agree b g g'"
  "agree (set_endpoint x b) g g' = agree b g g'"
  "agree (set_lstatus x b) g g' = agree b g g'"
  "agree (set_rstatus x b) g g' = agree b g g'"
  "agree (set_bar_length n b) g g' = agree b g g'"
  "agree (set_todo_col x b) g g' = agree b g g'"
  "agree (set_done_col x b) g g' = agree b g g'"
  "agree (set_status_col x b) g g' = agree b g g'"
  "agree (set_style w b) g g' = agree b g g'"
  "agree (set_style_bundle sty b) g g' = agree b g g'"
  by (rule agree_cong;
      simp add: set_step_def set_task_def set_done_def set_todo_def set_startpoint_def
        set_endpoint_def set_lstatus_def set_rstatus_def set_bar_length_def set_todo_col_def
        set_done_col_def set_status_col_def set_style_def set_style_bundle_def apply_style_def
        is_updated_def Let_def split: option.splits)+

lemma related_exec:
  assumes r: "related x y"
  shows "fst (exec c x) = fst (exec c y) \<and> related (snd (exec c x)) (snd (exec c y))"
proof -
  from r obtain g g' b where x: "x = (g, b)" and y: "y = (g', b)" and a: "agree b g g'"
    by (rule relatedE)
  show ?thesis
  proof (cases c)
    case Update
    then show ?thesis using related_do_update [OF r, of incr] by (simp add: update_def)
  next
    case (UpdateBy n)
    then show ?thesis using related_do_update [OF r, of "\<lambda>c. add_assign c n"]
      by (simp add: update_by_def)
  next
    case Reset
    then show ?thesis using related_reset [OF r] by simp
  qed (simp_all add: x y related_def agree_setters a)
qed

lemma related_run:
  "related x y \<Longrightarrow> fst (run cs x) = fst (run cs y) \<and> related (snd (run cs x)) (snd (run cs y))"
proof (induction cs arbitrary: x y)
  case Nil
  then show ?case by simp
next
  case (Cons c cs)
  from related_exec [OF Cons.prems, of c]
  have e: "fst (exec c x) = fst (exec c y)"
    and r: "related (snd (exec c x)) (snd (exec c y))" by simp_all
  from Cons.IH [OF r] e show ?case
    by (simp add: split_beta)
qed

lemma done_flag_render_progress [simp]:
  "done_flag (fst (render_progress (g, b))) = done_flag g"
  by (simp add: render_progress_def Let_def split_beta now_def)

lemma done_flag_render_final:
  "done_flag (fst (render_final (g, b))) = (done_flag g \<or> is_done b)"
  by (simp add: render_final_def Let_def split_beta)

text \<open>The static \<^verbatim>\<open>done_flag\<close> after a call of \<^verbatim>\<open>rendering()\<close>.\<close>

lemma done_flag_rendering:
  "done_flag (fst (rendering (g, b))) = ((is_updated b \<and> done_flag g) \<or> is_ended (task_cnt b))"
proof -
  obtain g1 b1 where r1: "render_first (g, b) = (g1, b1)" by (cases "render_first (g, b)")
  obtain g2 b2 where r2: "render_progress (g1, b1) = (g2, b2)" by (cases "render_progress (g1, b1)")
  obtain s1 where f1: "b1 = b\<lparr>update_flag := True, stream := s1\<rparr>"
    using render_first_frame [of g b] r1 by simp
  obtain s2 where f2: "b2 = b1\<lparr>stream := s2\<rparr>"
    using render_progress_frame [of g1 b1] r2 by simp
  have d1: "done_flag g1 = (is_updated b \<and> done_flag g)"
    using done_flag_render_first [of g b] r1 by simp
  have d2: "done_flag g2 = done_flag g1"
    using done_flag_render_progress [of g1 b1] r2 by simp
  have dn: "is_done b2 = is_ended (task_cnt b)"
    using f1 f2 by (simp add: is_done_def is_updated_def)
  show ?thesis
    using d1 d2 dn done_flag_render_final [of g2 b2]
    by (auto simp: rendering_def Let_def r1 r2)
qed

text \<open>Once \<^verbatim>\<open>done_flag\<close> is set, \<^verbatim>\<open>rendering()\<close> of a started object does nothing at all.\<close>

lemma rendering_done_noop:
  "is_updated b \<Longrightarrow> done_flag g \<Longrightarrow> rendering (g, b) = (g, b)"
  by (simp add: rendering_def render_first_def Let_def)

lemma rendering_stream_grows:
  assumes "in_tty b" "\<not> (is_updated b \<and> done_flag g)"
  shows "length (stream b) + 2 \<le> length (stream (snd (rendering (g, b))))"
proof -
  obtain l1 l2 l3 where "stream (snd (rendering (g, b))) =
         stream b @
         (if is_updated b then [] else [[], l1]) @
         (if is_updated b \<and> done_flag g then []
          else [replicate
                  (unat (total_length b
                     (controller b (if is_updated b then last_bar_progress g else 0))))
                  backspace, l2] @
               (if is_ended (task_cnt b)
                then [replicate (unat (total_length b (option b))) backspace, l3] else []))"
    using rendering_stream [OF assms(1), of g] by blast
  with assms(2) show ?thesis by auto
qed

lemma rendering_stream_mono:
  "length (stream b) \<le> length (stream (snd (rendering (g, b))))"
proof (cases "in_tty b")
  case True
  obtain l1 l2 l3 where "stream (snd (rendering (g, b))) =
         stream b @
         (if is_updated b then [] else [[], l1]) @
         (if is_updated b \<and> done_flag g then []
          else [replicate
                  (unat (total_length b
                     (controller b (if is_updated b then last_bar_progress g else 0))))
                  backspace, l2] @
               (if is_ended (task_cnt b)
                then [replicate (unat (total_length b (option b))) backspace, l3] else []))"
    using rendering_stream [OF True, of g] by blast
  then show ?thesis by simp
next
  case False
  then have "stream (snd (rendering (g, b))) = stream b"
    by (simp add: rendering_def render_first_def render_progress_def render_final_def
          Let_def is_done_def is_updated_def)
  then show ?thesis by simp
qed

lemma active_unfold:
  "\<not> active_flag b \<Longrightarrow>
     active (g, b) =
       (fst (rendering (g\<lparr>ticks := Suc (ticks g)\<rparr>, b\<lparr>last_invoke := clock g (ticks g)\<rparr>)),
        (snd (rendering (g\<lparr>ticks := Suc (ticks g)\<rparr>, b\<lparr>last_invoke := clock g (ticks g)\<rparr>)))
          \<lparr>active_flag := True\<rparr>)"
  by (simp add: active_def now_def split_beta)

lemma suspend_unfold:
  "active_flag b \<Longrightarrow>
     suspend (g, b) = (fst (rendering (g, b)), (snd (rendering (g, b)))\<lparr>active_flag := False\<rparr>)"
  by (simp add: suspend_def split_beta)

lemma do_update_unfold:
  assumes "\<not> is_done b" "num_tasks (task_cnt b) \<noteq> 0"
  shows "do_update f (g, b) =
     (None,
      (let s1 = (if \<not> is_updated b then active (g, b) else (g, b));
           s2 = render (fst s1, (snd s1)\<lparr>task_cnt := f (task_cnt (snd s1))\<rparr>)
       in if is_ended (task_cnt (snd s2)) then suspend s2 else s2))"
  using assms by (simp add: do_update_def counter_end_def Let_def split_beta)

text \<open>The first update of an object, when the counter has not ended after it, leaves
  \<^verbatim>\<open>done_flag\<close> false and the renderer active.\<close>

lemma first_update_not_ending:
  assumes nu: "\<not> is_updated b" and na: "\<not> active_flag b"
    and nz: "num_tasks (task_cnt b) \<noteq> 0"
    and ne0: "\<not> is_ended (task_cnt b)" and ne1: "\<not> is_ended (f (task_cnt b))"
  shows "\<not> done_flag (fst (snd (do_update f (g, b)))) \<and>
         active_flag (snd (snd (do_update f (g, b))))"
proof -
  have nd: "\<not> is_done b" using nu by (simp add: is_done_def)
  let ?g1 = "g\<lparr>ticks := Suc (ticks g)\<rparr>"
  let ?b1 = "b\<lparr>last_invoke := clock g (ticks g)\<rparr>"
  define s1 where "s1 = active (g, b)"
  define bm where "bm = (snd s1)\<lparr>task_cnt := f (task_cnt (snd s1))\<rparr>"
  define s2 where "s2 = render (fst s1, bm)"
  have s1: "s1 = (fst (rendering (?g1, ?b1)), (snd (rendering (?g1, ?b1)))\<lparr>active_flag := True\<rparr>)"
    unfolding s1_def by (rule active_unfold [OF na])
  have d1: "\<not> done_flag (fst s1)"
    using nu ne0 by (simp add: s1 done_flag_rendering is_updated_def)
  have t1: "task_cnt (snd s1) = task_cnt b"
    by (simp add: s1 task_cnt_rendering)
  have bm: "active_flag bm" "task_cnt bm = f (task_cnt b)"
    by (simp_all add: bm_def s1 t1 [unfolded s1] task_cnt_rendering)
  have d2: "\<not> done_flag (fst s2)"
    unfolding s2_def render_gate [OF bm(1)]
    using d1 ne1 by (simp add: done_flag_rendering bm)
  have a2: "active_flag (snd s2)" "task_cnt (snd s2) = f (task_cnt b)"
    using render_effect [of "fst s1" bm] bm by (simp_all add: s2_def)
  have "do_update f (g, b) = (None, s2)"
    using do_update_unfold [OF nd nz, of f g] nu a2 ne1
    by (simp add: Let_def s1_def [symmetric] bm_def [symmetric] s2_def [symmetric])
  with d2 a2 show ?thesis by simp
qed

text \<open>The first update of an object, when the counter has ended after it, sets
  \<^verbatim>\<open>done_flag\<close>.\<close>

lemma first_update_ending:
  assumes nu: "\<not> is_updated b" and na: "\<not> active_flag b"
    and nz: "num_tasks (task_cnt b) \<noteq> 0"
    and e1: "is_ended (f (task_cnt b))"
  shows "done_flag (fst (snd (do_update f (g, b))))"
proof -
  have nd: "\<not> is_done b" using nu by (simp add: is_done_def)
  define s1 where "s1 = active (g, b)"
  define bm where "bm = (snd s1)\<lparr>task_cnt := f (task_cnt (snd s1))\<rparr>"
  define s2 where "s2 = render (fst s1, bm)"
  have t1: "task_cnt (snd s1) = task_cnt b" "active_flag (snd s1)"
    using active_effect [of g b] na by (simp_all add: s1_def active_unfold)
  have bm: "active_flag bm" "task_cnt bm = f (task_cnt b)"
    by (simp_all add: bm_def t1)
  have a2: "active_flag (snd s2)" "task_cnt (snd s2) = f (task_cnt b)"
    using render_effect [of "fst s1" bm] bm by (simp_all add: s2_def)
  have "do_update f (g, b) = (None, suspend s2)"
    using do_update_unfold [OF nd nz, of f g] nu a2 e1
    by (simp add: Let_def s1_def [symmetric] bm_def [symmetric] s2_def [symmetric])
  moreover obtain g2 b2 where p: "s2 = (g2, b2)" by (cases s2)
  moreover have "done_flag (fst (suspend (g2, b2)))"
    using a2 e1 by (simp add: p suspend_unfold done_flag_rendering)
  ultimately show ?thesis by simp
qed

lemma render_done_silent:
  assumes u: "is_updated b" and d: "done_flag g"
  shows "stream (snd (render (g, b))) = stream b \<and> done_flag (fst (render (g, b))) \<and>
         is_updated (snd (render (g, b))) \<and> task_cnt (snd (render (g, b))) = task_cnt b \<and>
         active_flag (snd (render (g, b))) = active_flag b"
proof (cases "active_flag b")
  case False
  with u d show ?thesis by (simp add: render_def)
next
  case True
  have "rendering (g\<lparr>ticks := Suc (ticks g)\<rparr>, b\<lparr>last_invoke := clock g (ticks g)\<rparr>) =
          (g\<lparr>ticks := Suc (ticks g)\<rparr>, b\<lparr>last_invoke := clock g (ticks g)\<rparr>)"
    using u d by (intro rendering_done_noop) (simp_all add: is_updated_def)
  with u d True show ?thesis
    by (simp add: render_gate [OF True] is_updated_def)
qed

lemma suspend_done_silent:
  assumes u: "is_updated b" and d: "done_flag g"
  shows "stream (snd (suspend (g, b))) = stream b"
proof (cases "active_flag b")
  case False
  then show ?thesis by (simp add: suspend_def)
next
  case True
  then show ?thesis
    by (simp add: suspend_unfold rendering_done_noop [OF u d])
qed

text \<open>While \<^verbatim>\<open>done_flag\<close> is set, an update of a started object writes nothing.\<close>

lemma later_update_silent:
  assumes u: "is_updated b" and d: "done_flag g"
    and nd: "\<not> is_done b" and nz: "num_tasks (task_cnt b) \<noteq> 0"
  shows "fst (do_update f (g, b)) = None \<and>
         stream (snd (snd (do_update f (g, b)))) = stream b"
proof -
  define bm where "bm = b\<lparr>task_cnt := f (task_cnt b)\<rparr>"
  obtain g2 b2 where s2: "render (g, bm) = (g2, b2)" by (cases "render (g, bm)")
  have um: "is_updated bm" using u by (simp add: bm_def is_updated_def)
  have r: "stream b2 = stream b" "done_flag g2" "is_updated b2"
    using render_done_silent [OF um d] s2 by (simp_all add: bm_def)
  have "stream (snd (suspend (g2, b2))) = stream b"
    using suspend_done_silent [OF r(3) r(2)] r(1) by simp
  with r(1) show ?thesis
    using do_update_unfold [OF nd nz, of f g] u
    by (simp add: Let_def bm_def [symmetric] s2)
qed

text \<open>While \<^verbatim>\<open>done_flag\<close> is clear, the update that ends the counter of a started object
  on a terminal writes its frames.\<close>

lemma later_update_ending_writes:
  assumes u: "is_updated b" and a: "active_flag b" and t: "in_tty b"
    and d: "\<not> done_flag g"
    and nd: "\<not> is_done b" and nz: "num_tasks (task_cnt b) \<noteq> 0"
    and e: "is_ended (f (task_cnt b))"
  shows "length (stream b) < length (stream (snd (snd (do_update f (g, b)))))"
proof -
  define bm where "bm = b\<lparr>task_cnt := f (task_cnt b)\<rparr>"
  have bm: "is_updated bm" "active_flag bm" "in_tty bm" "stream bm = stream b"
    "task_cnt bm = f (task_cnt b)"
    using u a t by (simp_all add: bm_def is_updated_def)
  obtain g2 b2 where s2: "render (g, bm) = (g2, b2)" by (cases "render (g, bm)")
  have e2: "active_flag b2" "task_cnt b2 = f (task_cnt b)"
    using render_effect [of g bm] bm s2 by simp_all
  have res: "snd (snd (do_update f (g, b))) = snd (suspend (g2, b2))"
    using do_update_unfold [OF nd nz, of f g] u e e2
    by (simp add: Let_def bm_def [symmetric] s2)
  have sus: "stream (snd (suspend (g2, b2))) = stream (snd (rendering (g2, b2)))"
    using e2 by (simp add: suspend_unfold)
  let ?g1 = "g\<lparr>ticks := Suc (ticks g)\<rparr>"
  let ?b1 = "bm\<lparr>last_invoke := clock g (ticks g)\<rparr>"
  show ?thesis
  proof (cases "sint (clock g (ticks g) - last_invoke bm) < reflash_rate")
    case True
    then have "g2 = ?g1" "b2 = bm"
      using s2 by (simp_all add: render_gate [OF bm(2)])
    then have "length (stream b) + 2 \<le> length (stream (snd (rendering (g2, b2))))"
      using rendering_stream_grows [of bm ?g1] bm d by simp
    then show ?thesis by (simp add: res sus)
  next
    case False
    then have r: "(g2, b2) = rendering (?g1, ?b1)"
      using s2 by (simp add: render_gate [OF bm(2)])
    have "length (stream ?b1) + 2 \<le> length (stream (snd (rendering (?g1, ?b1))))"
      using bm d by (intro rendering_stream_grows) simp_all
    then have "length (stream b) + 2 \<le> length (stream b2)"
      using r [symmetric] bm by simp
    moreover have "length (stream b2) \<le> length (stream (snd (rendering (g2, b2))))"
      by (rule rendering_stream_mono)
    ultimately show ?thesis by (simp add: res sus)
  qed
qed

lemma same_config_in_tty: "same_config b b' \<Longrightarrow> in_tty b' = in_tty b"
proof -
  assume "same_config b b'"
  then obtain u a l st c where "b' = b\<lparr>update_flag := u, active_flag := a,
            last_invoke := l, stream := st, task_cnt := c\<rparr>"
    unfolding same_config_def by blast
  then show ?thesis by simp
qed

text \<open>
  C5, as the code has it.  The render state is not a member of the object: it is the
  static storage of \<^verbatim>\<open>rendering()\<close> and \<^verbatim>\<open>show_rate()\<close>, shared by all objects of the class.
  What does hold between two runs: let the globals differ in any way in the render
  state, as calls on other objects may have left it, and agree on the clock.  Then an
  object that has not started (new, or reset) behaves the same in both runs under
  every sequence of its own calls: the same exceptions, the same object, the same
  output.  The first render of a run initialises all the render state that the run
  reads.
\<close>

theorem new_run_ignores_render_state:
  "\<not> is_updated b \<Longrightarrow> clock g = clock g' \<Longrightarrow> ticks g = ticks g' \<Longrightarrow>
     fst (run cs (g, b)) = fst (run cs (g', b)) \<and>
     snd (snd (run cs (g, b))) = snd (snd (run cs (g', b))) \<and>
     stream (snd (snd (run cs (g, b)))) = stream (snd (snd (run cs (g', b))))"
proof -
  assume "\<not> is_updated b" "clock g = clock g'" "ticks g = ticks g'"
  then have "related (g, b) (g', b)" by (simp add: related_def agree_def)
  from related_run [OF this, of cs] show ?thesis
    unfolding related_def by auto
qed


theorem new_run_ignores_render_state_witness:
  "\<not> is_updated (pgbar_new 2 1 True) \<and>
   clock (init_globals of_nat) =
     clock ((init_globals of_nat)\<lparr>done_flag := True, last_bar_progress := 1,
              invoke_interval := 5, first_invoked := 9, rate_interval := 7\<rparr>) \<and>
   ticks (init_globals of_nat) =
     ticks ((init_globals of_nat)\<lparr>done_flag := True, last_bar_progress := 1,
              invoke_interval := 5, first_invoked := 9, rate_interval := 7\<rparr>) \<and>
   snd (snd (run [Update, Update] (init_globals of_nat, pgbar_new 2 1 True))) =
     snd (snd (run [Update, Update]
       ((init_globals of_nat)\<lparr>done_flag := True, last_bar_progress := 1,
              invoke_interval := 5, first_invoked := 9, rate_interval := 7\<rparr>,
        pgbar_new 2 1 True)))"
proof -
  have h: "\<not> is_updated (pgbar_new 2 1 True)"
    "clock (init_globals of_nat) =
     clock ((init_globals of_nat)\<lparr>done_flag := True, last_bar_progress := 1,
              invoke_interval := 5, first_invoked := 9, rate_interval := 7\<rparr>)"
    "ticks (init_globals of_nat) =
     ticks ((init_globals of_nat)\<lparr>done_flag := True, last_bar_progress := 1,
              invoke_interval := 5, first_invoked := 9, rate_interval := 7\<rparr>)"
    by (simp_all add: is_updated_def pgbar_new_fields)
  from new_run_ignores_render_state [OF h, of "[Update, Update]"] h
  show ?thesis by blast
qed

text \<open>
  C5 as stated fails for two objects whose runs overlap.  \<open>B\<close> (total 2, on a
  terminal) makes its first update; \<open>A\<close> (total 1) is then updated once and finishes,
  which sets the shared \<^verbatim>\<open>done_flag\<close>, false until then; the second update of \<open>B\<close> is
  accepted and finishes \<open>B\<close>, but writes nothing, not even the final frame.  Without
  the update of \<open>A\<close>, the same second update of \<open>B\<close> writes its frames.
\<close>

theorem shared_render_state_counterexample:
  "\<not> done_flag (fst (snd (update (init_globals of_nat, pgbar_new 2 1 True)))) \<and>
   done_flag (fst (snd (update (fst (snd (update (init_globals of_nat, pgbar_new 2 1 True))),
                                pgbar_new 1 1 False)))) \<and>
   fst (update (fst (snd (update (fst (snd (update (init_globals of_nat, pgbar_new 2 1 True))),
                                  pgbar_new 1 1 False))),
                snd (snd (update (init_globals of_nat, pgbar_new 2 1 True))))) = None \<and>
   is_done (snd (snd
     (update (fst (snd (update (fst (snd (update (init_globals of_nat, pgbar_new 2 1 True))),
                                pgbar_new 1 1 False))),
              snd (snd (update (init_globals of_nat, pgbar_new 2 1 True))))))) \<and>
   stream (snd (snd
     (update (fst (snd (update (fst (snd (update (init_globals of_nat, pgbar_new 2 1 True))),
                                pgbar_new 1 1 False))),
              snd (snd (update (init_globals of_nat, pgbar_new 2 1 True))))))) =
     stream (snd (snd (update (init_globals of_nat, pgbar_new 2 1 True)))) \<and>
   length (stream (snd (snd (update (init_globals of_nat, pgbar_new 2 1 True))))) <
     length (stream (snd (snd
       (update (snd (update (init_globals of_nat, pgbar_new 2 1 True)))))))"
proof -
  let ?G0 = "init_globals of_nat"
  let ?B0 = "pgbar_new 2 1 True"
  let ?A0 = "pgbar_new 1 1 False"
  let ?G1 = "fst (snd (update (?G0, ?B0)))"
  let ?B1 = "snd (snd (update (?G0, ?B0)))"
  let ?GA = "fst (snd (update (?G1, ?A0)))"
  have b0: "\<not> is_updated ?B0" "\<not> active_flag ?B0" "num_tasks (task_cnt ?B0) \<noteq> 0"
    "\<not> is_ended (task_cnt ?B0)" "\<not> is_ended (incr (task_cnt ?B0))" "\<not> is_done ?B0"
    by (simp_all add: pgbar_new_fields is_updated_def is_done_def is_ended_def incr_def
          word_le_nat_alt word_less_nat_alt)
  have a0: "\<not> is_updated ?A0" "\<not> active_flag ?A0" "num_tasks (task_cnt ?A0) \<noteq> 0"
    "is_ended (incr (task_cnt ?A0))"
    by (simp_all add: pgbar_new_fields is_updated_def is_ended_def incr_def
          word_le_nat_alt word_less_nat_alt)
  have ok: "task_cnt ?B1 = \<lparr>num_tasks = 2, step = 1, current = 1\<rparr>" "update_flag ?B1"
    "same_config ?B0 ?B1"
    using do_update_ok [OF b0(6) b0(3), of incr ?G0] b0
    by (simp_all add: update_def pgbar_new_fields incr_def)
  have g1: "\<not> done_flag ?G1" and act: "active_flag ?B1"
    using first_update_not_ending [where f = incr and g = ?G0, OF b0(1-5)] by (simp_all add: update_def)
  have ga: "done_flag ?GA"
    using first_update_ending [where f = incr and g = ?G1, OF a0] by (simp add: update_def)
  have b1: "is_updated ?B1" "in_tty ?B1" "\<not> is_done ?B1" "num_tasks (task_cnt ?B1) \<noteq> 0"
    "is_ended (incr (task_cnt ?B1))"
    using ok same_config_in_tty [OF ok(3)]
    by (simp_all add: is_updated_def is_done_def is_ended_def incr_def pgbar_new_fields
          word_le_nat_alt word_less_nat_alt)
  have silent: "fst (update (?GA, ?B1)) = None"
    "stream (snd (snd (update (?GA, ?B1)))) = stream ?B1"
    using later_update_silent [where f = incr, OF b1(1) ga b1(3) b1(4)] by (simp_all add: update_def)
  have dn: "is_done (snd (snd (update (?GA, ?B1))))"
    using do_update_ok [OF b1(3) b1(4), of incr ?GA] b1(1) b1(5)
    by (simp add: update_def is_done_def is_updated_def)
  have "length (stream ?B1) < length (stream (snd (snd (update (?G1, ?B1)))))"
    using later_update_ending_writes [where f = incr, OF b1(1) act b1(2) g1 b1(3) b1(4) b1(5)]
    by (simp add: update_def)
  then have writes: "length (stream ?B1) <
      length (stream (snd (snd (update (snd (update (?G0, ?B0)))))))"
    by simp
  from g1 ga silent dn writes show ?thesis by blast
qed

end
